theory Spec2Isabelle
  imports Complex_Main "HOL-Library.Log_Nat" "HOL-Library.Sublist"
begin

section \<open>Python strings\<close>

text \<open>
  A Python \<open>str\<close> is a sequence of code points. The model uses \<^typ>\<open>string\<close>, whose
  characters are the code points below 256; the three character classes below are
  Python 3's own tables restricted to that range: \<open>str.isspace\<close> (used by
  \<open>str.split()\<close> and \<open>str.strip()\<close>), the class \<open>\w\<close> of the \<open>re\<close> module on
  \<open>str\<close> patterns, and \<open>str.lower\<close>.
\<close>

definition is_space :: "char \<Rightarrow> bool" where
  "is_space c =
     (let n = (of_char c :: nat)
      in (9 \<le> n \<and> n \<le> 13) \<or> (28 \<le> n \<and> n \<le> 32) \<or> n = 133 \<or> n = 160)"

definition is_word :: "char \<Rightarrow> bool" where
  "is_word c =
     (let n = (of_char c :: nat)
      in (48 \<le> n \<and> n \<le> 57) \<or> (65 \<le> n \<and> n \<le> 90) \<or> n = 95 \<or> (97 \<le> n \<and> n \<le> 122)
         \<or> n = 170 \<or> n = 178 \<or> n = 179 \<or> n = 181 \<or> n = 185 \<or> n = 186
         \<or> (188 \<le> n \<and> n \<le> 190) \<or> (192 \<le> n \<and> n \<le> 214) \<or> (216 \<le> n \<and> n \<le> 246)
         \<or> 248 \<le> n)"

definition lower_char :: "char \<Rightarrow> char" where
  "lower_char c =
     (let n = (of_char c :: nat)
      in if (65 \<le> n \<and> n \<le> 90) \<or> (192 \<le> n \<and> n \<le> 222 \<and> n \<noteq> 215)
         then char_of (n + 32) else c)"

text \<open>\<open>s.lower()\<close>\<close>

definition py_lower :: "string \<Rightarrow> string" where
  "py_lower s = map lower_char s"

text \<open>\<open>s.strip()\<close>\<close>

definition py_strip :: "string \<Rightarrow> string" where
  "py_strip s = rev (dropWhile is_space (rev (dropWhile is_space s)))"

text \<open>
  \<open>s.split()\<close>: the maximal runs of non-whitespace characters, in order. The first
  argument is the run being read.
\<close>

fun split_from :: "string \<Rightarrow> string \<Rightarrow> string list" where
  "split_from w [] = (if w = [] then [] else [w])"
| "split_from w (c # cs) =
     (if is_space c then (if w = [] then split_from [] cs else w # split_from [] cs)
      else split_from (w @ [c]) cs)"

definition py_split :: "string \<Rightarrow> string list" where
  "py_split s = split_from [] s"

text \<open>\<open>sep.join(xs)\<close>\<close>

fun py_join :: "string \<Rightarrow> string list \<Rightarrow> string" where
  "py_join sep [] = []"
| "py_join sep [x] = x"
| "py_join sep (x # y # ys) = x @ sep @ py_join sep (y # ys)"

text \<open>\<open>a in b\<close> on strings: \<open>a\<close> occurs in \<open>b\<close> as a contiguous substring.\<close>

fun py_in :: "string \<Rightarrow> string \<Rightarrow> bool" where
  "py_in a [] = (a = [])"
| "py_in a (c # cs) = (take (length a) (c # cs) = a \<or> py_in a cs)"

text \<open>\<open>s.split(sep)[0]\<close> for a non-empty \<open>sep\<close>: the text before the first occurrence.\<close>

fun before_sep :: "string \<Rightarrow> string \<Rightarrow> string" where
  "before_sep sep [] = []"
| "before_sep sep (c # cs) =
     (if take (length sep) (c # cs) = sep then [] else c # before_sep sep cs)"

section \<open>The two regular-expression substitutions\<close>

text \<open>
  \<open>re.sub(r'\([^)]*\)', '', text)\<close> and \<open>re.sub(r'\[[^\]]*\]', '', text)\<close>: scanning
  from the left, an opening delimiter that has a closing delimiter somewhere after it
  is deleted together with everything up to the first such closing delimiter, and the
  scan goes on behind it; an opening delimiter with no closing delimiter after it
  stays.
\<close>

function strip_span :: "char \<Rightarrow> char \<Rightarrow> string \<Rightarrow> string" where
  "strip_span l r [] = []"
| "strip_span l r (c # cs) =
     (if c = l \<and> r \<in> set cs then strip_span l r (tl (dropWhile (\<lambda>d. d \<noteq> r) cs))
      else c # strip_span l r cs)"
  by pat_completeness auto
termination
proof (relation "measure (\<lambda>(l, r, s). length s)")
  fix l r :: char and c :: char and cs :: string
  have "length (dropWhile (\<lambda>d. d \<noteq> r) cs) \<le> length cs"
    by (rule length_dropWhile_le)
  then show "((l, r, tl (dropWhile (\<lambda>d. d \<noteq> r) cs)), (l, r, c # cs))
      \<in> measure (\<lambda>(l, r, s). length s)"
    by simp
qed simp_all

text \<open>
  \<open>re.sub(r'\b' + re.escape(word) + r'\b', '', text, flags=re.IGNORECASE)\<close> for a
  literal \<open>word\<close>. \<open>\b\<close> holds at a position when exactly one of the characters before
  and after it is a word character, the outside of the string counting as a non-word
  character. \<open>matches_at w p s\<close>: the pattern matches at the head of \<open>s\<close>, where \<open>p\<close>
  tells whether the character before \<open>s\<close> in the scanned text is a word character and
  \<open>w\<close> is the literal in lower case.
\<close>

definition next_is_word :: "string \<Rightarrow> bool" where
  "next_is_word s = (case s of [] \<Rightarrow> False | c # _ \<Rightarrow> is_word c)"

definition matches_at :: "string \<Rightarrow> bool \<Rightarrow> string \<Rightarrow> bool" where
  "matches_at w p s =
     (length w \<le> length s \<and> py_lower (take (length w) s) = w
      \<and> p \<noteq> next_is_word s
      \<and> is_word (last (take (length w) s)) \<noteq> next_is_word (drop (length w) s))"

text \<open>
  The substitution deletes the leftmost match and goes on behind it; the scan never
  looks at a match twice, and \<open>\b\<close> behind a match still sees the last character of
  the deleted text.
\<close>

function sub_word :: "string \<Rightarrow> bool \<Rightarrow> string \<Rightarrow> string" where
  "sub_word w p [] = []"
| "sub_word w p (c # cs) =
     (if w \<noteq> [] \<and> matches_at w p (c # cs)
      then sub_word w (is_word (last (take (length w) (c # cs)))) (drop (length w) (c # cs))
      else c # sub_word w (is_word c) cs)"
  by pat_completeness auto
termination
  by (relation "measure (\<lambda>(w, p, s). length s)") auto

section \<open>Text normaliser\<close>

definition noise_words :: "string list" where
  "noise_words = [''feat.'', ''ft.'', ''featuring'', ''with'', ''vs.'', ''vs'', ''&'']"

definition normalize_search_text :: "string \<Rightarrow> string" where
  "normalize_search_text text =
     (if text = [] then []
      else let t1 = strip_span CHR ''('' CHR '')'' text;
               t2 = strip_span CHR ''['' CHR '']'' t1;
               t3 = fold (\<lambda>word t. sub_word (py_lower word) False t) noise_words t2;
               t4 = py_join '' '' (py_split t3)
           in py_strip t4)"

fun primary_of :: "string list \<Rightarrow> string \<Rightarrow> string" where
  "primary_of [] s = py_strip s"
| "primary_of (sep # seps) s =
     (if py_in sep s then py_strip (before_sep sep s) else primary_of seps s)"

definition extract_primary_artist :: "string \<Rightarrow> string" where
  "extract_primary_artist artist_str =
     (if artist_str = [] then []
      else primary_of ['','', '';'', ''&'', '' and '', '' x '', '' X ''] artist_str)"

section \<open>Floating-point scores\<close>

text \<open>
  Python's \<open>float\<close> is IEEE 754 binary64. A finite float is modelled by the rational
  number it denotes, and every arithmetic operation rounds its exact result to the
  nearest number with a 53-bit significand, ties to even (\<open>fl\<close>). The exponent is left
  unbounded: the scores of this program lie between 0 and 2, and an underflow of
  \<open>len(...) / max(...)\<close> would need an artist name of more than \<open>2 ^ 1000\<close> words.
\<close>

definition pow2 :: "int \<Rightarrow> rat" where
  "pow2 e = (if 0 \<le> e then 2 ^ nat e else 1 / 2 ^ nat (- e))"

text \<open>For \<open>x > 0\<close>, \<open>ilog2 x\<close> is the exponent \<open>e\<close> with \<open>2 ^ e \<le> x < 2 ^ (e + 1)\<close>.\<close>

definition ilog2 :: "rat \<Rightarrow> int" where
  "ilog2 x =
     (let d = bitlen (fst (quotient_of x)) - bitlen (snd (quotient_of x))
      in if pow2 d \<le> x then d else d - 1)"

definition round_even :: "rat \<Rightarrow> int" where
  "round_even x =
     (let f = \<lfloor>x\<rfloor>; d = x - of_int f
      in if d < 1 / 2 then f else if 1 / 2 < d then f + 1
         else if even f then f else f + 1)"

definition fl :: "rat \<Rightarrow> rat" where
  "fl x =
     (if x = 0 then 0
      else let s = pow2 (52 - ilog2 \<bar>x\<bar>)
           in sgn x * of_int (round_even (\<bar>x\<bar> * s)) / s)"

definition fadd :: "rat \<Rightarrow> rat \<Rightarrow> rat" where
  "fadd x y = fl (x + y)"

definition fmul :: "rat \<Rightarrow> rat \<Rightarrow> rat" where
  "fmul x y = fl (x * y)"

text \<open>\<open>a / b\<close> on two \<open>int\<close>s (here two lengths): the correctly rounded quotient.\<close>

definition fdiv_len :: "nat \<Rightarrow> nat \<Rightarrow> rat" where
  "fdiv_len a b = fl (of_nat a / of_nat b)"

text \<open>The float literals of the source.\<close>

definition f0_1 :: rat where "f0_1 = fl (1 / 10)"
definition f0_2 :: rat where "f0_2 = fl (2 / 10)"
definition f0_5 :: rat where "f0_5 = fl (5 / 10)"
definition f0_6 :: rat where "f0_6 = fl (6 / 10)"
definition f0_7 :: rat where "f0_7 = fl (7 / 10)"
definition f0_8 :: rat where "f0_8 = fl (8 / 10)"
definition f0_85 :: rat where "f0_85 = fl (85 / 100)"
definition f0_9 :: rat where "f0_9 = fl (9 / 10)"
definition f1_1 :: rat where "f1_1 = fl (11 / 10)"

section \<open>Artist similarity scorer\<close>

definition calculate_artist_similarity :: "string \<Rightarrow> string \<Rightarrow> rat" where
  "calculate_artist_similarity artist1 artist2 =
     (if artist1 = [] \<or> artist2 = [] then 0
      else let a1 = py_strip (py_lower artist1);
               a2 = py_strip (py_lower artist2)
           in if a1 = a2 then 1
              else if py_in a1 a2 \<or> py_in a2 a1 then f0_9
              else if extract_primary_artist a1 = extract_primary_artist a2 then f0_85
              else let words1 = set (py_split a1);
                       words2 = set (py_split a2)
                   in if words1 \<noteq> {} \<and> words2 \<noteq> {}
                      then fmul (fdiv_len (card (words1 \<inter> words2))
                                          (max (card words1) (card words2))) f0_7
                      else 0)"

section \<open>Candidate matcher\<close>

text \<open>
  A candidate of the destination catalogue, with the fields the matcher reads:
  \<open>track.artist.name\<close>, \<open>track.album.name\<close> and \<open>track.duration\<close> (seconds) are absent
  when the attribute is missing or \<open>None\<close>.
\<close>

record track =
  track_id :: int
  track_name :: string
  track_artist :: "string option"
  track_album :: "string option"
  track_duration :: "int option"

datatype error = Error string

text \<open>
  \<open>self.tidal.search(query, limit=10)\<close> followed by \<open>.get('tracks', [])\<close>: the track
  candidates, or the exception raised.
\<close>

type_synonym search = "string \<Rightarrow> error + track list"

record match_state =
  best_match :: "track option"
  best_score :: rat
  query_used :: "string option"
  calls :: "string list"

text \<open>The field \<open>calls\<close> is the log of the queries passed to the search capability.\<close>

record match_result =
  r_track :: track
  r_confidence :: rat
  r_query_used :: "string option"

text \<open>The score of one candidate: the body of the inner loop up to the update.\<close>

definition track_score ::
  "string \<Rightarrow> string option \<Rightarrow> int option \<Rightarrow> string \<Rightarrow> track \<Rightarrow> rat" where
  "track_score artist_name album_name duration_ms track_clean t =
     (let score0 = 0;
          t_artist = (case track_artist t of Some a \<Rightarrow> a | None \<Rightarrow> []);
          artist_sim = calculate_artist_similarity artist_name t_artist;
          score1 = fadd score0 (fmul artist_sim f0_6);
          score2 = (case album_name of
                      None \<Rightarrow> score1
                    | Some an \<Rightarrow>
                        (case track_album t of
                           None \<Rightarrow> score1
                         | Some ta \<Rightarrow>
                             if an = [] then score1
                             else fadd score1 (fmul (calculate_artist_similarity an ta) f0_2)));
          score3 = (case duration_ms of
                      None \<Rightarrow> fadd score2 f0_1
                    | Some d \<Rightarrow>
                        (case track_duration t of
                           None \<Rightarrow> fadd score2 f0_1
                         | Some td \<Rightarrow>
                             if d = 0 \<or> td = 0 then fadd score2 f0_1
                             else let duration_diff = \<bar>d - td * 1000\<bar>
                                  in if duration_diff < 5000 then fadd score2 f0_2
                                     else if duration_diff < 15000 then fadd score2 f0_1
                                     else score2));
          track_name_clean = normalize_search_text (track_name t)
      in if py_in (py_lower track_clean) (py_lower track_name_clean)
            \<or> py_in (py_lower track_name_clean) (py_lower track_clean)
         then fadd score3 f0_1 else score3)"

text \<open>The inner loop over the candidates of one query.\<close>

fun score_tracks ::
  "string \<Rightarrow> string option \<Rightarrow> int option \<Rightarrow> string \<Rightarrow> string \<Rightarrow> track list
     \<Rightarrow> match_state \<Rightarrow> match_state" where
  "score_tracks an al du tc query [] st = st"
| "score_tracks an al du tc query (t # ts) st =
     (let score = track_score an al du tc t
      in score_tracks an al du tc query ts
           (if best_score st < score
            then st\<lparr>best_score := score, best_match := Some t, query_used := Some query\<rparr>
            else st))"

text \<open>
  The loop over the queries. An exception of the search is caught and the loop goes on
  with the next query, as it does when there are no candidates; after the candidates
  of a query are scored, a running best of at least 0.8 ends the loop.
\<close>

fun run_queries ::
  "search \<Rightarrow> string \<Rightarrow> string option \<Rightarrow> int option \<Rightarrow> string \<Rightarrow> string list
     \<Rightarrow> match_state \<Rightarrow> match_state" where
  "run_queries search an al du tc [] st = st"
| "run_queries search an al du tc (query # queries) st =
     (let st1 = st\<lparr>calls := calls st @ [query]\<rparr>
      in case search query of
           Inl e \<Rightarrow> run_queries search an al du tc queries st1
         | Inr tracks \<Rightarrow>
             if tracks = [] then run_queries search an al du tc queries st1
             else let st2 = score_tracks an al du tc query tracks st1
                  in if f0_8 \<le> best_score st2 then st2
                     else run_queries search an al du tc queries st2)"

definition dquote :: string where
  "dquote = [CHR 0x22]"

text \<open>The fallback queries, most specific first; \<open>None\<close> and empty entries are dropped.\<close>

definition build_queries :: "string \<Rightarrow> string \<Rightarrow> string \<Rightarrow> string list" where
  "build_queries track_clean artist_clean primary_artist =
     concat (map (\<lambda>q. case q of None \<Rightarrow> [] | Some s \<Rightarrow> if s = [] then [] else [s])
       [if primary_artist \<noteq> []
        then Some (dquote @ track_clean @ dquote @ '' '' @ dquote @ primary_artist @ dquote)
        else None,
        if primary_artist \<noteq> [] then Some (track_clean @ '' '' @ primary_artist) else None,
        if artist_clean \<noteq> [] \<and> artist_clean \<noteq> primary_artist
        then Some (track_clean @ '' '' @ artist_clean) else None,
        Some track_clean])"

definition initial_state :: match_state where
  "initial_state = \<lparr>best_match = None, best_score = 0, query_used = None, calls = []\<rparr>"

text \<open>
  \<open>search_tidal_track\<close> returns the match, if any, together with the log of the search
  calls it made.
\<close>

definition search_tidal_track ::
  "search \<Rightarrow> string \<Rightarrow> string \<Rightarrow> string option \<Rightarrow> int option
     \<Rightarrow> match_result option \<times> string list" where
  "search_tidal_track search track_nm artist_name album_name duration_ms =
     (let track_clean = normalize_search_text track_nm;
          artist_clean = normalize_search_text artist_name;
          primary_artist = extract_primary_artist artist_clean
      in if track_clean = [] then (None, [])
         else let queries = build_queries track_clean artist_clean primary_artist;
                  st = run_queries search artist_name album_name duration_ms track_clean
                         queries initial_state
              in (case best_match st of
                    None \<Rightarrow> None
                  | Some t \<Rightarrow>
                      if f0_5 \<le> best_score st
                      then Some \<lparr>r_track = t, r_confidence = best_score st,
                                 r_query_used = query_used st\<rparr>
                      else None,
                  calls st))"

section \<open>Playlist transfer: buffering and flushing the matched tracks\<close>

text \<open>
  The part of \<open>direct_transfer_playlists\<close> that transfers the tracks of one playlist
  (the pagination loop and the flush behind it). A source track carries the fields
  the loop reads: \<open>track['name']\<close>, the names of \<open>track['artists']\<close>,
  \<open>track['album']['name']\<close>, \<open>track['duration_ms']\<close> and \<open>track['type']\<close>.
\<close>

record sp_track =
  sp_name :: string
  sp_artists :: "string list"
  sp_album :: string
  sp_duration_ms :: int
  sp_type :: string

text \<open>
  A page of \<open>playlist_tracks\<close>: for every item its \<open>item.get('track')\<close>, and whether
  \<open>tracks['next']\<close> is set.
\<close>

record page =
  items :: "sp_track option list"
  has_next :: bool

record failure =
  f_name :: string
  f_artist :: string
  f_album :: string
  f_playlist :: string
  f_reason :: string

text \<open>
  The state of the loop. \<open>writes\<close> is the log of the calls \<open>tidal_playlist.add(batch_ids)\<close>,
  each with the list it was given.
\<close>

record transfer_state =
  batch_ids :: "int list"
  imported :: nat
  failed :: nat
  failed_items :: "failure list"
  writes :: "int list list"

text \<open>The handler \<open>except Exception as e\<close> of the loop body.\<close>

definition item_failed :: "string \<Rightarrow> sp_track \<Rightarrow> error \<Rightarrow> transfer_state \<Rightarrow> transfer_state" where
  "item_failed playlist_name t e st =
     (case e of Error msg \<Rightarrow>
        st\<lparr>failed := failed st + 1,
           failed_items := failed_items st @
             [\<lparr>f_name = sp_name t, f_artist = py_join '', '' (sp_artists t),
               f_album = sp_album t, f_playlist = playlist_name,
               f_reason = ''Error: '' @ msg\<rparr>]\<rparr>)"

text \<open>
  The body of \<open>for item in tracks['items']\<close>. The progress line printed for a track
  reads \<open>track['artists'][0]\<close>, which raises \<open>IndexError\<close> on an empty list; the
  exception, like one of \<open>tidal_playlist.add\<close>, is caught by the handler of the body,
  and what the body had done before it stays done.
\<close>

definition process_item ::
  "search \<Rightarrow> (int list \<Rightarrow> error option) \<Rightarrow> string \<Rightarrow> sp_track option
     \<Rightarrow> transfer_state \<Rightarrow> transfer_state" where
  "process_item search add playlist_name item st =
     (case item of
        None \<Rightarrow> st
      | Some t \<Rightarrow>
          if sp_type t \<noteq> ''track'' then st
          else
            (case fst (search_tidal_track search (sp_name t) (py_join '', '' (sp_artists t))
                        (Some (sp_album t)) (Some (sp_duration_ms t))) of
               Some m \<Rightarrow>
                 let st1 = st\<lparr>batch_ids := batch_ids st @ [track_id (r_track m)],
                              imported := imported st + 1\<rparr>
                 in if sp_artists t = []
                    then item_failed playlist_name t (Error ''list index out of range'') st1
                    else if length (batch_ids st1) = 50
                    then let st2 = st1\<lparr>writes := writes st1 @ [batch_ids st1]\<rparr>
                         in (case add (batch_ids st1) of
                               None \<Rightarrow> st2\<lparr>batch_ids := []\<rparr>
                             | Some e \<Rightarrow> item_failed playlist_name t e st2)
                    else st1
             | None \<Rightarrow>
                 let st1 = st\<lparr>failed := failed st + 1,
                              failed_items := failed_items st @
                                [\<lparr>f_name = sp_name t,
                                  f_artist = py_join '', '' (sp_artists t),
                                  f_album = sp_album t, f_playlist = playlist_name,
                                  f_reason = ''No match found on TIDAL''\<rparr>]\<rparr>
                 in if sp_artists t = []
                    then item_failed playlist_name t (Error ''list index out of range'') st1
                    else st1))"

text \<open>
  \<open>while True\<close>: the page at \<open>offset\<close> is fetched and its items are processed; the
  loop ends behind a page without \<open>next\<close>, and an exception of the fetch leaves the
  loop for the handler of the playlist (the second component of the result).
\<close>

partial_function (option) transfer_pages ::
  "search \<Rightarrow> (int list \<Rightarrow> error option) \<Rightarrow> (nat \<Rightarrow> error + page) \<Rightarrow> string \<Rightarrow> nat
     \<Rightarrow> transfer_state \<Rightarrow> (transfer_state \<times> error option) option" where
  "transfer_pages search add fetch playlist_name offset st =
     (case fetch offset of
        Inl e \<Rightarrow> Some (st, Some e)
      | Inr tracks \<Rightarrow>
          let st1 = fold (process_item search add playlist_name) (items tracks) st
          in if \<not> has_next tracks then Some (st1, None)
             else transfer_pages search add fetch playlist_name (offset + 100) st1)"

definition initial_transfer :: transfer_state where
  "initial_transfer =
     \<lparr>batch_ids = [], imported = 0, failed = 0, failed_items = [], writes = []\<rparr>"

text \<open>
  The tracks of one playlist: the pagination loop from offset 0, then the flush of what
  is left in the buffer. \<open>None\<close>: the loop does not end.
\<close>

definition direct_transfer_playlist ::
  "search \<Rightarrow> (int list \<Rightarrow> error option) \<Rightarrow> (nat \<Rightarrow> error + page) \<Rightarrow> string
     \<Rightarrow> (transfer_state \<times> error option) option" where
  "direct_transfer_playlist search add fetch playlist_name =
     (case transfer_pages search add fetch playlist_name 0 initial_transfer of
        None \<Rightarrow> None
      | Some (st, Some e) \<Rightarrow> Some (st, Some e)
      | Some (st, None) \<Rightarrow>
          if batch_ids st \<noteq> []
          then Some (st\<lparr>writes := writes st @ [batch_ids st]\<rparr>, add (batch_ids st))
          else Some (st, None))"

section \<open>Notions used to state the properties\<close>

text \<open>
  The running best after the queries \<open>qs\<close> have been answered: the scoring of all
  their candidates, in order, from the initial state.
\<close>

definition running_best ::
  "search \<Rightarrow> string \<Rightarrow> string option \<Rightarrow> int option \<Rightarrow> string \<Rightarrow> string list \<Rightarrow> match_state" where
  "running_best search an al du tc qs =
     fold (\<lambda>q st. case search q of Inl e \<Rightarrow> st | Inr ts \<Rightarrow> score_tracks an al du tc q ts st)
       qs initial_state"

text \<open>
  The candidates met while the queries \<open>qs\<close> were answered, in the order of the
  queries and of each answer, each with its query and its score.
\<close>

definition encountered ::
  "search \<Rightarrow> string \<Rightarrow> string option \<Rightarrow> int option \<Rightarrow> string \<Rightarrow> string list
     \<Rightarrow> (string \<times> track \<times> rat) list" where
  "encountered search an al du tc qs =
     concat (map (\<lambda>q. case search q of
                         Inl e \<Rightarrow> []
                       | Inr ts \<Rightarrow> map (\<lambda>t. (q, t, track_score an al du tc t)) ts) qs)"

text \<open>The identifier a source item is matched to, if it is a track and has a match.\<close>

definition matched_id :: "search \<Rightarrow> sp_track option \<Rightarrow> int option" where
  "matched_id search item =
     (case item of
        None \<Rightarrow> None
      | Some t \<Rightarrow>
          if sp_type t \<noteq> ''track'' then None
          else map_option (\<lambda>m. track_id (r_track m))
                 (fst (search_tidal_track search (sp_name t) (py_join '', '' (sp_artists t))
                        (Some (sp_album t)) (Some (sp_duration_ms t)))))"

text \<open>What one query contributes to the running state: nothing when the search fails.\<close>

definition answer ::
  "search \<Rightarrow> string \<Rightarrow> string option \<Rightarrow> int option \<Rightarrow> string \<Rightarrow> string
     \<Rightarrow> match_state \<Rightarrow> match_state" where
  "answer search an al du tc q st =
     (case search q of Inl e \<Rightarrow> st | Inr ts \<Rightarrow> score_tracks an al du tc q ts st)"

text \<open>
  The running state holds the first candidate of \<open>enc\<close> with the greatest score: no
  score in \<open>enc\<close> is above \<open>best_score\<close>, and a stored candidate stands in \<open>enc\<close> with
  that score and its query, behind smaller scores only.
\<close>

definition first_best :: "(string \<times> track \<times> rat) list \<Rightarrow> match_state \<Rightarrow> bool" where
  "first_best enc st =
     ((\<forall>j < length enc. snd (snd (enc ! j)) \<le> best_score st) \<and>
      (case best_match st of
         None \<Rightarrow> True
       | Some t \<Rightarrow>
           (\<exists>i q. i < length enc \<and> enc ! i = (q, t, best_score st) \<and> query_used st = Some q
                  \<and> (\<forall>j < i. snd (snd (enc ! j)) < best_score st))))"

text \<open>
  The buffer discipline on its own: an identifier is appended to the buffer, and a
  buffer that has reached \<open>n\<close> identifiers is written out and emptied. The pair is the
  buffer and the log of the write calls.
\<close>

definition buffer_id :: "nat \<Rightarrow> int \<Rightarrow> int list \<times> int list list \<Rightarrow> int list \<times> int list list" where
  "buffer_id n i bw =
     (if length (fst bw @ [i]) = n then ([], snd bw @ [fst bw @ [i]]) else (fst bw @ [i], snd bw))"

text \<open>What an item does to the buffer when nothing raises.\<close>

definition buffer_item :: "search \<Rightarrow> sp_track option \<Rightarrow> int list \<times> int list list \<Rightarrow> int list \<times> int list list" where
  "buffer_item search item bw = (case matched_id search item of None \<Rightarrow> bw | Some i \<Rightarrow> buffer_id 50 i bw)"

text \<open>
  A candidate on which every part of the score is at its greatest: the artist similarity
  is 1.0; an album name is supplied and is not empty, the candidate has an album, and
  their similarity is 1.0; the source duration and the candidate's duration are both
  present and both non-zero (so that the code compares them), and they are less than
  5000 ms apart; and the normalised track name is contained in the candidate's
  normalised name or contains it, case ignored.
\<close>

definition exact_candidate :: "string \<Rightarrow> string option \<Rightarrow> int option \<Rightarrow> string \<Rightarrow> track \<Rightarrow> bool" where
  "exact_candidate an al du tc t =
     (calculate_artist_similarity an (case track_artist t of Some a \<Rightarrow> a | None \<Rightarrow> []) = 1 \<and>
      (case al of
         None \<Rightarrow> False
       | Some a \<Rightarrow> a \<noteq> [] \<and>
           (case track_album t of None \<Rightarrow> False | Some ta \<Rightarrow> calculate_artist_similarity a ta = 1)) \<and>
      (case du of
         None \<Rightarrow> False
       | Some d \<Rightarrow> d \<noteq> 0 \<and>
           (case track_duration t of
              None \<Rightarrow> False
            | Some td \<Rightarrow> td \<noteq> 0 \<and> \<bar>d - td * 1000\<bar> < 5000)) \<and>
      (py_in (py_lower tc) (py_lower (normalize_search_text (track_name t)))
         \<or> py_in (py_lower (normalize_search_text (track_name t))) (py_lower tc)))"

section \<open>Example data\<close>

definition hello_track :: track where
  "hello_track = \<lparr>track_id = 7, track_name = ''Hello'', track_artist = Some ''Adele'',
     track_album = Some ''25'', track_duration = Some 295\<rparr>"

definition weak_track :: track where
  "weak_track = \<lparr>track_id = 3, track_name = ''Hello'',
     track_artist = Some ''Adele Tribute Band'', track_album = None,
     track_duration = Some 400\<rparr>"

definition hello_query :: string where
  "hello_query = dquote @ ''Hello'' @ dquote @ '' '' @ dquote @ ''Adele'' @ dquote"

definition hello_stub :: search where
  "hello_stub = (\<lambda>q. if q = hello_query then Inr [hello_track] else Inl (Error ''unavailable''))"

definition failing_stub :: search where
  "failing_stub = (\<lambda>q. if q = hello_query then Inl (Error ''timeout'') else Inr [hello_track])"

definition two_step_stub :: search where
  "two_step_stub = (\<lambda>q. if q = hello_query then Inr [weak_track] else Inr [hello_track])"

definition tie_stub :: search where
  "tie_stub = (\<lambda>q. Inr [hello_track, hello_track\<lparr>track_id := 8\<rparr>])"

definition adele_item :: sp_track where
  "adele_item = \<lparr>sp_name = ''Hello'', sp_artists = [''Adele''], sp_album = ''25'',
     sp_duration_ms = 297000, sp_type = ''track''\<rparr>"

text \<open>A track that lists no artist.\<close>

definition orphan_item :: sp_track where
  "orphan_item = \<lparr>sp_name = ''Hello'', sp_artists = [], sp_album = ''25'',
     sp_duration_ms = 297000, sp_type = ''track''\<rparr>"

definition always_hello :: search where
  "always_hello = (\<lambda>q. Inr [hello_track])"

definition add_ok :: "int list \<Rightarrow> error option" where
  "add_ok = (\<lambda>ids. None)"

text \<open>A playlist of 125 tracks, in a page of 100 and a page of 25.\<close>

definition playlist_125 :: "nat \<Rightarrow> error + page" where
  "playlist_125 =
     (\<lambda>offset. if offset = 0
                then Inr \<lparr>items = replicate 100 (Some adele_item), has_next = True\<rparr>
                else Inr \<lparr>items = replicate 25 (Some adele_item), has_next = False\<rparr>)"

text \<open>The same playlist, but its 50th track lists no artist.\<close>

definition playlist_125_gap :: "nat \<Rightarrow> error + page" where
  "playlist_125_gap =
     (\<lambda>offset. if offset = 0
                then Inr \<lparr>items = replicate 49 (Some adele_item) @ [Some orphan_item]
                                    @ replicate 50 (Some adele_item),
                           has_next = True\<rparr>
                else Inr \<lparr>items = replicate 25 (Some adele_item), has_next = False\<rparr>)"

section \<open>Artist similarity scorer: exact matches and symmetry\<close>

text \<open>
  Claim C8. For every non-empty string \<open>x\<close> the scorer returns 1.0 on \<open>x\<close> and \<open>x\<close>,
  and more generally it returns 1.0 on two non-empty strings that are equal after
  lower-casing and trimming.
\<close>

theorem similarity_exact_match:
  "(x \<noteq> [] \<longrightarrow> calculate_artist_similarity x x = 1) \<and>
   (a \<noteq> [] \<and> b \<noteq> [] \<and> py_strip (py_lower a) = py_strip (py_lower b)
      \<longrightarrow> calculate_artist_similarity a b = 1)"
  by (simp add: calculate_artist_similarity_def)

theorem similarity_exact_match_witness:
  "''Adele'' \<noteq> [] \<and> calculate_artist_similarity ''Adele'' ''Adele'' = 1 \<and>
   '' ADELE'' \<noteq> [] \<and> ''adele  '' \<noteq> [] \<and>
   py_strip (py_lower '' ADELE'') = py_strip (py_lower ''adele  '') \<and>
   calculate_artist_similarity '' ADELE'' ''adele  '' = 1"
proof -
  have h: "py_strip (py_lower '' ADELE'') = py_strip (py_lower ''adele  '')"
    by code_simp
  show ?thesis
    using similarity_exact_match [of "''Adele''" "'' ADELE''" "''adele  ''"] h by simp
qed

text \<open>
  Claim C10. The scorer is symmetric: it returns the same value on \<open>a\<close>, \<open>b\<close> and on
  \<open>b\<close>, \<open>a\<close>, for every pair of strings.
\<close>

theorem similarity_symmetric:
  "calculate_artist_similarity a b = calculate_artist_similarity b a"
proof -
  have "card (set (py_split x) \<inter> set (py_split y)) = card (set (py_split y) \<inter> set (py_split x))"
    for x y
    by (simp add: Int_commute)
  then show ?thesis
    unfolding calculate_artist_similarity_def Let_def
    by (auto simp: max.commute)
qed

theorem similarity_symmetric_witness:
  "calculate_artist_similarity ''Drake'' ''Drake feat. Future'' = f0_9 \<and>
   calculate_artist_similarity ''Drake feat. Future'' ''Drake'' = f0_9"
proof -
  have "calculate_artist_similarity ''Drake'' ''Drake feat. Future'' = f0_9"
    by code_simp
  then show ?thesis
    using similarity_symmetric [of "''Drake''" "''Drake feat. Future''"] by simp
qed

section \<open>Rounding is monotone\<close>

lemma pow2_powi: "pow2 e = 2 powi e"
  by (simp add: pow2_def power_int_def power_one_over inverse_eq_divide)

lemma pow2_pos [simp]: "0 < pow2 e"
  by (simp add: pow2_powi)

lemma pow2_add: "pow2 (a + b) = pow2 a * pow2 b"
  by (simp add: pow2_powi power_int_add)

lemma pow2_mono: "a \<le> b \<Longrightarrow> pow2 a \<le> pow2 b"
  by (simp add: pow2_powi power_int_increasing)

lemma pow2_less_iff: "pow2 a < pow2 b \<longleftrightarrow> a < b"
proof
  assume "pow2 a < pow2 b"
  then show "a < b" using pow2_mono [of b a] by (cases "a < b") auto
next
  assume "a < b"
  then show "pow2 a < pow2 b" by (simp add: pow2_powi power_int_strict_increasing)
qed

lemma pow2_nat: "0 \<le> k \<Longrightarrow> pow2 k = 2 ^ nat k"
  by (simp add: pow2_def)

lemma ilog2_bounds:
  assumes "0 < x"
  shows "pow2 (ilog2 x) \<le> x \<and> x < pow2 (ilog2 x + 1)"
proof -
  obtain a b where q: "quotient_of x = (a, b)" by (cases "quotient_of x")
  have b: "0 < b" using q by (rule quotient_of_denom_pos)
  have x: "x = of_int a / of_int b" using q by (rule quotient_of_div)
  have a: "0 < a" using assms b x by (simp add: zero_less_divide_iff)
  let ?la = "bitlen a" and ?lb = "bitlen b"
  have la: "1 \<le> ?la" using a bitlen_eq_zero_iff [of a] bitlen_nonneg [of a] by linarith
  have lb: "1 \<le> ?lb" using b bitlen_eq_zero_iff [of b] bitlen_nonneg [of b] by linarith
  from bitlen_bounds [OF a] have "(of_int (2 ^ nat (?la - 1)) :: rat) \<le> of_int a" "(of_int a :: rat) < of_int (2 ^ nat ?la)"
    by (simp_all only: of_int_le_iff of_int_less_iff)
  then have a1: "pow2 (?la - 1) \<le> of_int a" and a2: "of_int a < pow2 ?la"
    using la by (simp_all add: pow2_nat)
  from bitlen_bounds [OF b] have "(of_int (2 ^ nat (?lb - 1)) :: rat) \<le> of_int b" "(of_int b :: rat) < of_int (2 ^ nat ?lb)"
    by (simp_all only: of_int_le_iff of_int_less_iff)
  then have b1: "pow2 (?lb - 1) \<le> of_int b" and b2: "of_int b < pow2 ?lb"
    using lb by (simp_all add: pow2_nat)
  have bpos: "(0::rat) < of_int b" using b by simp
  have apos: "(0::rat) < of_int a" using a by simp
  have up: "x < pow2 (?la - ?lb + 1)"
  proof -
    have "of_int a < pow2 (?la - ?lb + 1) * pow2 (?lb - 1)"
      using a2 by (simp add: pow2_add [symmetric])
    also have "\<dots> \<le> pow2 (?la - ?lb + 1) * of_int b"
      using b1 by (simp add: mult_left_mono less_imp_le)
    finally show ?thesis using bpos by (simp add: x pos_divide_less_eq)
  qed
  have lo: "pow2 (?la - ?lb - 1) < x"
  proof -
    have "pow2 (?la - ?lb - 1) * of_int b < pow2 (?la - ?lb - 1) * pow2 ?lb"
      using b2 by simp
    also have "\<dots> = pow2 (?la - 1)" by (simp add: pow2_add [symmetric])
    also have "\<dots> \<le> of_int a" by (rule a1)
    finally show ?thesis using bpos by (simp add: x pos_less_divide_eq)
  qed
  show ?thesis
  proof (cases "pow2 (?la - ?lb) \<le> x")
    case True
    then have "ilog2 x = ?la - ?lb" by (simp add: ilog2_def q)
    then show ?thesis using True up by simp
  next
    case False
    then have "ilog2 x = ?la - ?lb - 1" by (simp add: ilog2_def q)
    then show ?thesis using False lo by simp
  qed
qed

lemma ilog2_mono:
  assumes "0 < x" "x \<le> y"
  shows "ilog2 x \<le> ilog2 y"
proof -
  have "pow2 (ilog2 x) \<le> x" using ilog2_bounds [OF assms(1)] by simp
  also have "x \<le> y" by fact
  also have "y < pow2 (ilog2 y + 1)" using ilog2_bounds [of y] assms by simp
  finally show ?thesis by (simp add: pow2_less_iff)
qed

lemma round_even_cases: "round_even x = \<lfloor>x\<rfloor> \<or> round_even x = \<lfloor>x\<rfloor> + 1"
  by (simp add: round_even_def Let_def)

lemma round_even_of_int [simp]: "round_even (of_int n) = n"
  by (simp add: round_even_def)

lemma round_even_ge:
  assumes "of_int m \<le> x"
  shows "m \<le> round_even x"
proof -
  have "m \<le> \<lfloor>x\<rfloor>" using assms by (simp add: le_floor_iff)
  then show ?thesis using round_even_cases [of x] by linarith
qed

lemma round_even_le:
  assumes "x \<le> of_int n"
  shows "round_even x \<le> n"
proof (cases "x = of_int n")
  case True
  then show ?thesis by simp
next
  case False
  then have "x < of_int n" using assms by simp
  then have "\<lfloor>x\<rfloor> < n" by (simp add: floor_less_iff)
  then show ?thesis using round_even_cases [of x] by auto
qed

lemma round_even_mono:
  assumes "x \<le> y"
  shows "round_even x \<le> round_even y"
proof (cases "\<lfloor>x\<rfloor> = \<lfloor>y\<rfloor>")
  case True
  then show ?thesis using assms by (auto simp: round_even_def Let_def)
next
  case False
  then have "\<lfloor>x\<rfloor> < \<lfloor>y\<rfloor>" using assms floor_mono [of x y] by simp
  then have "round_even x \<le> \<lfloor>y\<rfloor>" using round_even_cases [of x] by auto
  also have "\<lfloor>y\<rfloor> \<le> round_even y" using round_even_cases [of y] by auto
  finally show ?thesis .
qed

lemma fl_pos:
  "0 < x \<Longrightarrow> fl x = of_int (round_even (x * pow2 (52 - ilog2 x))) / pow2 (52 - ilog2 x)"
  by (simp add: fl_def Let_def)

lemma fl_pos_bounds:
  assumes "0 < x"
  shows "pow2 (ilog2 x) \<le> fl x \<and> fl x \<le> pow2 (ilog2 x + 1)"
proof -
  let ?e = "ilog2 x"
  let ?s = "pow2 (52 - ?e)"
  have p52: "pow2 ?e * ?s = of_int (2 ^ 52)" and p53: "pow2 (?e + 1) * ?s = of_int (2 ^ 53)"
    by (simp_all add: pow2_add [symmetric] pow2_nat)
  have "pow2 ?e * ?s \<le> x * ?s" using ilog2_bounds [OF assms] by simp
  then have "2 ^ 52 \<le> round_even (x * ?s)" unfolding p52 by (rule round_even_ge)
  then have "(of_int (2 ^ 52) :: rat) \<le> of_int (round_even (x * ?s))" by (simp only: of_int_le_iff)
  then have l: "pow2 ?e \<le> fl x"
    unfolding fl_pos [OF assms] p52 [symmetric] by (simp add: pos_le_divide_eq)
  have "x * ?s \<le> pow2 (?e + 1) * ?s" using ilog2_bounds [OF assms] by simp
  then have "round_even (x * ?s) \<le> 2 ^ 53" unfolding p53 by (rule round_even_le)
  then have "(of_int (round_even (x * ?s)) :: rat) \<le> of_int (2 ^ 53)" by (simp only: of_int_le_iff)
  then have u: "fl x \<le> pow2 (?e + 1)"
    unfolding fl_pos [OF assms] p53 [symmetric] by (simp add: pos_divide_le_eq)
  show ?thesis using l u by simp
qed

lemma fl_nonneg: "0 \<le> x \<Longrightarrow> 0 \<le> fl x"
proof (cases "x = 0")
  case True
  then show ?thesis by (simp add: fl_def)
next
  case False
  assume "0 \<le> x"
  then have "0 < x" using False by simp
  then have "pow2 (ilog2 x) \<le> fl x" using fl_pos_bounds by simp
  then show ?thesis using pow2_pos [of "ilog2 x"] by linarith
qed

lemma fl_mono_pos:
  assumes "0 < x" "x \<le> y"
  shows "fl x \<le> fl y"
proof (cases "ilog2 x = ilog2 y")
  case True
  have y: "0 < y" using assms by simp
  let ?s = "pow2 (52 - ilog2 y)"
  have "x * ?s \<le> y * ?s" using assms by simp
  then have "round_even (x * ?s) \<le> round_even (y * ?s)" by (rule round_even_mono)
  then have "(of_int (round_even (x * ?s)) :: rat) \<le> of_int (round_even (y * ?s))"
    by (simp only: of_int_le_iff)
  then have "(of_int (round_even (x * ?s)) :: rat) / ?s \<le> of_int (round_even (y * ?s)) / ?s"
    by (rule divide_right_mono) (simp add: less_imp_le)
  then show ?thesis
    unfolding fl_pos [OF assms(1)] fl_pos [OF y] True .
next
  case False
  have y: "0 < y" using assms by simp
  from False have "ilog2 x + 1 \<le> ilog2 y" using ilog2_mono [OF assms] by simp
  then have "pow2 (ilog2 x + 1) \<le> pow2 (ilog2 y)" by (rule pow2_mono)
  then show ?thesis using fl_pos_bounds [OF assms(1)] fl_pos_bounds [OF y] by linarith
qed

lemma fl_mono:
  assumes "0 \<le> x" "x \<le> y"
  shows "fl x \<le> fl y"
proof (cases "x = 0")
  case True
  then show ?thesis using fl_nonneg [of y] assms by (simp add: fl_def)
next
  case False
  then have "0 < x" using assms by simp
  then show ?thesis using assms(2) by (rule fl_mono_pos)
qed

section \<open>The loop over the queries\<close>

lemma score_tracks_calls_update:
  "score_tracks an al du tc q ts (st\<lparr>calls := c\<rparr>) = (score_tracks an al du tc q ts st)\<lparr>calls := c\<rparr>"
proof (induction ts arbitrary: st)
  case Nil
  then show ?case by simp
next
  case (Cons t ts)
  have swap: "st\<lparr>calls := c, best_score := sc, best_match := Some t, query_used := Some q\<rparr>
      = st\<lparr>best_score := sc, best_match := Some t, query_used := Some q\<rparr>\<lparr>calls := c\<rparr>" for sc
    by simp
  show ?case
    by (simp add: Let_def swap Cons.IH del: match_state.update_convs)
qed

lemma score_tracks_calls [simp]: "calls (score_tracks an al du tc q ts st) = calls st"
  by (induction ts arbitrary: st) (simp_all add: Let_def)

lemma f0_8_pos: "0 < f0_8"
  by code_simp

lemma answer_calls [simp]: "calls (answer search an al du tc q st) = calls st"
  by (simp add: answer_def split: sum.splits)

lemma answer_calls_update:
  "answer search an al du tc q (st\<lparr>calls := c\<rparr>) = (answer search an al du tc q st)\<lparr>calls := c\<rparr>"
  by (simp add: answer_def score_tracks_calls_update split: sum.splits)

lemma run_queries_unfold:
  assumes "best_score st < f0_8"
  shows "run_queries search an al du tc (q # qs) st =
     (let st2 = answer search an al du tc q (st\<lparr>calls := calls st @ [q]\<rparr>)
      in if f0_8 \<le> best_score st2 then st2 else run_queries search an al du tc qs st2)"
  using assms by (auto simp: answer_def Let_def split: sum.splits)

lemma run_queries_cases:
  "run_queries search an al du tc (q # qs) st = answer search an al du tc q (st\<lparr>calls := calls st @ [q]\<rparr>)
   \<or> run_queries search an al du tc (q # qs) st
       = run_queries search an al du tc qs (answer search an al du tc q (st\<lparr>calls := calls st @ [q]\<rparr>))"
  by (auto simp: answer_def Let_def split: sum.splits)

lemma running_best_snoc:
  "running_best search an al du tc (cs @ [q]) = answer search an al du tc q (running_best search an al du tc cs)"
  by (simp add: running_best_def answer_def)

lemma run_queries_invariant:
  assumes "best_score st < f0_8" and "st\<lparr>calls := []\<rparr> = running_best search an al du tc (calls st)"
  shows "\<exists>qs'. prefix qs' qs \<and> calls (run_queries search an al du tc qs st) = calls st @ qs'
      \<and> (run_queries search an al du tc qs st)\<lparr>calls := []\<rparr>
          = running_best search an al du tc (calls st @ qs')
      \<and> (\<forall>k < length qs'. best_score (running_best search an al du tc (calls st @ take k qs')) < f0_8)"
  using assms
proof (induction qs arbitrary: st)
  case Nil
  then show ?case by simp
next
  case (Cons q qs)
  let ?st1 = "st\<lparr>calls := calls st @ [q]\<rparr>"
  let ?st2 = "answer search an al du tc q ?st1"
  have "?st2\<lparr>calls := []\<rparr> = answer search an al du tc q (?st1\<lparr>calls := []\<rparr>)"
    by (simp only: answer_calls_update)
  also have "?st1\<lparr>calls := []\<rparr> = st\<lparr>calls := []\<rparr>" by simp
  finally have c2: "?st2\<lparr>calls := []\<rparr> = running_best search an al du tc (calls st @ [q])"
    using Cons.prems(2) by (simp only: running_best_snoc)
  have calls2: "calls ?st2 = calls st @ [q]" by simp
  have "best_score (st\<lparr>calls := []\<rparr>) < f0_8" using Cons.prems(1) by simp
  then have b0: "best_score (running_best search an al du tc (calls st)) < f0_8"
    using Cons.prems(2) by simp
  show ?case
  proof (cases "f0_8 \<le> best_score ?st2")
    case True
    then have r: "run_queries search an al du tc (q # qs) st = ?st2"
      using run_queries_unfold [OF Cons.prems(1)] by (simp add: Let_def)
    have "prefix [q] (q # qs)" by simp
    moreover have "calls (run_queries search an al du tc (q # qs) st) = calls st @ [q]"
      using r calls2 by simp
    moreover have "(run_queries search an al du tc (q # qs) st)\<lparr>calls := []\<rparr>
          = running_best search an al du tc (calls st @ [q])"
      using r c2 by simp
    moreover have "\<forall>k < length [q]. best_score (running_best search an al du tc (calls st @ take k [q])) < f0_8"
      using b0 by simp
    ultimately show ?thesis by blast
  next
    case False
    then have r: "run_queries search an al du tc (q # qs) st = run_queries search an al du tc qs ?st2"
      using run_queries_unfold [OF Cons.prems(1)] by (simp add: Let_def)
    from False have lt: "best_score ?st2 < f0_8" by simp
    have c2': "?st2\<lparr>calls := []\<rparr> = running_best search an al du tc (calls ?st2)"
      using c2 calls2 by simp
    from Cons.IH [OF lt c2'] obtain qs' where
      p: "prefix qs' qs" and
      cl: "calls (run_queries search an al du tc qs ?st2) = calls ?st2 @ qs'" and
      co: "(run_queries search an al du tc qs ?st2)\<lparr>calls := []\<rparr> = running_best search an al du tc (calls ?st2 @ qs')" and
      lo: "\<forall>k < length qs'. best_score (running_best search an al du tc (calls ?st2 @ take k qs')) < f0_8"
      by blast
    have lo': "\<forall>k < length (q # qs'). best_score (running_best search an al du tc (calls st @ take k (q # qs'))) < f0_8"
    proof (intro allI impI)
      fix k assume k: "k < length (q # qs')"
      show "best_score (running_best search an al du tc (calls st @ take k (q # qs'))) < f0_8"
      proof (cases k)
        case 0
        then show ?thesis using b0 by simp
      next
        case (Suc j)
        then have "j < length qs'" using k by simp
        then have "best_score (running_best search an al du tc (calls ?st2 @ take j qs')) < f0_8"
          using lo by blast
        then show ?thesis using Suc calls2 by simp
      qed
    qed
    have "prefix (q # qs') (q # qs)" using p by simp
    moreover have "calls (run_queries search an al du tc (q # qs) st) = calls st @ q # qs'"
      using r cl calls2 by simp
    moreover have "(run_queries search an al du tc (q # qs) st)\<lparr>calls := []\<rparr>
          = running_best search an al du tc (calls st @ q # qs')"
      using r co calls2 by simp
    ultimately show ?thesis using lo' by blast
  qed
qed

lemma build_queries_length: "length (build_queries tc ac pa) \<le> 4"
  by (simp add: build_queries_def)

lemma search_tidal_track_calls:
  "snd (search_tidal_track search nm an al du) =
     (if normalize_search_text nm = [] then []
      else calls (run_queries search an al du (normalize_search_text nm)
             (build_queries (normalize_search_text nm) (normalize_search_text an)
                (extract_primary_artist (normalize_search_text an))) initial_state))"
  by (simp add: search_tidal_track_def Let_def)

text \<open>
  Claim C4. A match attempt issues at most 4 search calls, in the order of the fallback
  queries, and every call is issued while the running best, after the calls before it,
  is below 0.8: once the running best has reached 0.8 no further call is issued.
\<close>

theorem search_calls_bounded:
  "length (snd (search_tidal_track search nm an al du)) \<le> 4 \<and>
   prefix (snd (search_tidal_track search nm an al du))
     (build_queries (normalize_search_text nm) (normalize_search_text an)
        (extract_primary_artist (normalize_search_text an))) \<and>
   (\<forall>k < length (snd (search_tidal_track search nm an al du)).
      best_score (running_best search an al du (normalize_search_text nm)
                    (take k (snd (search_tidal_track search nm an al du)))) < f0_8)"
proof (cases "normalize_search_text nm = []")
  case True
  then show ?thesis by (simp add: search_tidal_track_calls)
next
  case False
  let ?tc = "normalize_search_text nm"
  let ?qs = "build_queries ?tc (normalize_search_text an)
        (extract_primary_artist (normalize_search_text an))"
  have i1: "best_score initial_state < f0_8"
    using f0_8_pos by (simp add: initial_state_def)
  have i2: "initial_state\<lparr>calls := []\<rparr> = running_best search an al du ?tc (calls initial_state)"
    by (simp add: initial_state_def running_best_def)
  from run_queries_invariant [OF i1 i2, of ?qs] obtain qs' where
    p: "prefix qs' ?qs" and
    cl: "calls (run_queries search an al du ?tc ?qs initial_state) = qs'" and
    lo: "\<forall>k < length qs'. best_score (running_best search an al du ?tc (take k qs')) < f0_8"
    by (auto simp: initial_state_def)
  have eq: "snd (search_tidal_track search nm an al du) = qs'"
    using False cl by (simp add: search_tidal_track_calls)
  have "length qs' \<le> length ?qs" using p by (rule prefix_length_le)
  then have "length qs' \<le> 4" using build_queries_length [of ?tc] by (meson le_trans)
  then show ?thesis using p lo unfolding eq by simp
qed

theorem search_calls_bounded_witness:
  "snd (search_tidal_track two_step_stub ''Hello'' ''Adele'' (Some ''25'') (Some 297000))
     = [hello_query, ''Hello Adele''] \<and>
   length [hello_query, ''Hello Adele''] \<le> 4 \<and>
   best_score (running_best two_step_stub ''Adele'' (Some ''25'') (Some 297000)
                 (normalize_search_text ''Hello'') (take 1 [hello_query, ''Hello Adele''])) < f0_8"
proof -
  have e: "snd (search_tidal_track two_step_stub ''Hello'' ''Adele'' (Some ''25'') (Some 297000))
     = [hello_query, ''Hello Adele'']"
    by code_simp
  have "\<forall>k < length [hello_query, ''Hello Adele''].
      best_score (running_best two_step_stub ''Adele'' (Some ''25'') (Some 297000)
                 (normalize_search_text ''Hello'') (take k [hello_query, ''Hello Adele''])) < f0_8"
    using search_calls_bounded [of two_step_stub "''Hello''" "''Adele''" "Some ''25''" "Some 297000"]
    unfolding e by blast
  then have "best_score (running_best two_step_stub ''Adele'' (Some ''25'') (Some 297000)
                 (normalize_search_text ''Hello'') (take 1 [hello_query, ''Hello Adele''])) < f0_8"
    by (simp del: take_Suc_Cons)
  then show ?thesis using e by simp
qed

text \<open>
  Claim C6. When the normalised track name is empty, \<open>search_tidal_track\<close> returns no
  match and makes no search call, whatever the artist, the album and the duration are.
\<close>

theorem empty_name_no_search:
  "normalize_search_text nm = [] \<Longrightarrow>
     search_tidal_track search nm an al du = (None, [])"
  by (simp add: search_tidal_track_def)

theorem empty_name_no_search_witness:
  "normalize_search_text ''(Live)'' = [] \<and>
   search_tidal_track hello_stub ''(Live)'' ''Adele'' (Some ''25'') (Some 297000) = (None, [])"
proof -
  have h: "normalize_search_text ''(Live)'' = []"
    by code_simp
  show ?thesis
    using h empty_name_no_search [OF h, of hello_stub "''Adele''" "Some ''25''" "Some 297000"]
    by simp
qed

text \<open>
  Claim C7. When the search call of one query fails, the loop logs the call and goes on
  with the remaining queries from an unchanged running state; the whole attempt returns
  what it returns when that query has no candidates, so the failure reaches no caller.
\<close>

lemma run_queries_failed_as_empty:
  assumes "search q = Inl e"
  shows "run_queries (search(q := Inr [])) an al du tc qs st = run_queries search an al du tc qs st"
proof (induction qs arbitrary: st)
  case Nil
  then show ?case by simp
next
  case (Cons q' qs)
  show ?case
  proof (cases "q' = q")
    case True
    then show ?thesis using assms Cons.IH by (simp add: Let_def)
  next
    case False
    then show ?thesis using Cons.IH by (simp add: Let_def split: sum.splits)
  qed
qed

theorem failed_query_is_skipped:
  "search q = Inl e \<Longrightarrow>
     run_queries search an al du tc (q # qs) st
       = run_queries search an al du tc qs (st\<lparr>calls := calls st @ [q]\<rparr>) \<and>
     search_tidal_track search nm an al du = search_tidal_track (search(q := Inr [])) nm an al du"
  by (simp add: search_tidal_track_def Let_def run_queries_failed_as_empty)

theorem failed_query_is_skipped_witness:
  "failing_stub hello_query = Inl (Error ''timeout'') \<and>
   search_tidal_track failing_stub ''Hello'' ''Adele'' (Some ''25'') (Some 297000)
     = search_tidal_track (failing_stub(hello_query := Inr [])) ''Hello'' ''Adele'' (Some ''25'')
         (Some 297000) \<and>
   search_tidal_track failing_stub ''Hello'' ''Adele'' (Some ''25'') (Some 297000)
     = (Some \<lparr>r_track = hello_track, r_confidence = f1_1, r_query_used = Some ''Hello Adele''\<rparr>,
        [hello_query, ''Hello Adele''])"
proof -
  have h: "failing_stub hello_query = Inl (Error ''timeout'')"
    by (simp add: failing_stub_def)
  have e: "search_tidal_track failing_stub ''Hello'' ''Adele'' (Some ''25'') (Some 297000)
     = (Some \<lparr>r_track = hello_track, r_confidence = f1_1, r_query_used = Some ''Hello Adele''\<rparr>,
        [hello_query, ''Hello Adele''])"
    by code_simp
  from failed_query_is_skipped [where search = failing_stub and q = hello_query, OF h]
  have "search_tidal_track failing_stub ''Hello'' ''Adele'' (Some ''25'') (Some 297000)
     = search_tidal_track (failing_stub(hello_query := Inr [])) ''Hello'' ''Adele'' (Some ''25'')
         (Some 297000)"
    by (rule conjunct2)
  then show ?thesis using h e by simp
qed

section \<open>The running best is the first candidate with the greatest score\<close>

lemma first_best_calls [simp]: "first_best enc (st\<lparr>calls := c\<rparr>) = first_best enc st"
  by (simp add: first_best_def split: option.splits)

lemma first_best_step:
  assumes "first_best enc st"
  shows "first_best (enc @ [(q, t, sc)])
           (if best_score st < sc
            then st\<lparr>best_score := sc, best_match := Some t, query_used := Some q\<rparr> else st)"
proof (cases "best_score st < sc")
  case True
  have le: "\<forall>j < length enc. snd (snd (enc ! j)) \<le> best_score st"
    using assms by (simp add: first_best_def)
  have a: "\<forall>j < length (enc @ [(q, t, sc)]). snd (snd ((enc @ [(q, t, sc)]) ! j)) \<le> sc"
  proof (intro allI impI)
    fix j assume "j < length (enc @ [(q, t, sc)])"
    then consider "j < length enc" | "j = length enc" by fastforce
    then show "snd (snd ((enc @ [(q, t, sc)]) ! j)) \<le> sc"
    proof cases
      case 1
      then show ?thesis using le True by (fastforce simp: nth_append)
    next
      case 2
      then show ?thesis by simp
    qed
  qed
  have b: "\<forall>j < length enc. snd (snd ((enc @ [(q, t, sc)]) ! j)) < sc"
    using le True by (fastforce simp: nth_append)
  have "\<exists>i q'. i < length (enc @ [(q, t, sc)]) \<and> (enc @ [(q, t, sc)]) ! i = (q', t, sc) \<and> Some q = Some q'
                  \<and> (\<forall>j < i. snd (snd ((enc @ [(q, t, sc)]) ! j)) < sc)"
    apply (rule exI [of _ "length enc"])
    apply (rule exI [of _ q])
    using b by simp
  then show ?thesis using True a by (simp add: first_best_def)
next
  case False
  have le: "\<forall>j < length enc. snd (snd (enc ! j)) \<le> best_score st"
    using assms by (simp add: first_best_def)
  have a: "\<forall>j < length (enc @ [(q, t, sc)]). snd (snd ((enc @ [(q, t, sc)]) ! j)) \<le> best_score st"
  proof (intro allI impI)
    fix j assume "j < length (enc @ [(q, t, sc)])"
    then consider "j < length enc" | "j = length enc" by fastforce
    then show "snd (snd ((enc @ [(q, t, sc)]) ! j)) \<le> best_score st"
    proof cases
      case 1
      then show ?thesis using le by (simp add: nth_append)
    next
      case 2
      then show ?thesis using False by simp
    qed
  qed
  show ?thesis
  proof (cases "best_match st")
    case None
    then show ?thesis using False a by (simp add: first_best_def)
  next
    case (Some t')
    then obtain i q' where i: "i < length enc" "enc ! i = (q', t', best_score st)" "query_used st = Some q'"
      "\<forall>j < i. snd (snd (enc ! j)) < best_score st"
      using assms by (auto simp: first_best_def)
    have "\<forall>j < i. snd (snd ((enc @ [(q, t, sc)]) ! j)) < best_score st"
      using i by (simp add: nth_append)
    moreover have "i < length (enc @ [(q, t, sc)])" "(enc @ [(q, t, sc)]) ! i = (q', t', best_score st)"
      using i by (simp_all add: nth_append)
    ultimately have "\<exists>i q'. i < length (enc @ [(q, t, sc)]) \<and> (enc @ [(q, t, sc)]) ! i = (q', t', best_score st)
        \<and> query_used st = Some q' \<and> (\<forall>j < i. snd (snd ((enc @ [(q, t, sc)]) ! j)) < best_score st)"
      using i(3) by blast
    then show ?thesis using False a Some by (simp add: first_best_def)
  qed
qed

lemma first_best_score_tracks:
  "first_best enc st \<Longrightarrow>
     first_best (enc @ map (\<lambda>t. (q, t, track_score an al du tc t)) ts) (score_tracks an al du tc q ts st)"
proof (induction ts arbitrary: enc st)
  case Nil
  then show ?case by simp
next
  case (Cons t ts)
  from first_best_step [OF Cons.prems, of q t "track_score an al du tc t"]
  have "first_best ((enc @ [(q, t, track_score an al du tc t)]) @ map (\<lambda>t. (q, t, track_score an al du tc t)) ts)
     (score_tracks an al du tc q ts (if best_score st < track_score an al du tc t
            then st\<lparr>best_score := track_score an al du tc t, best_match := Some t, query_used := Some q\<rparr> else st))"
    by (rule Cons.IH)
  then show ?case by (simp add: Let_def)
qed

lemma encountered_snoc:
  "encountered search an al du tc (cs @ [q]) =
     encountered search an al du tc cs @
       (case search q of Inl e \<Rightarrow> [] | Inr ts \<Rightarrow> map (\<lambda>t. (q, t, track_score an al du tc t)) ts)"
  by (simp add: encountered_def)

lemma first_best_answer:
  assumes "first_best (encountered search an al du tc cs) st"
  shows "first_best (encountered search an al du tc (cs @ [q])) (answer search an al du tc q st)"
proof (cases "search q")
  case (Inl e)
  then show ?thesis using assms by (simp add: encountered_snoc answer_def)
next
  case (Inr ts)
  then show ?thesis using first_best_score_tracks [OF assms] by (simp add: encountered_snoc answer_def)
qed

lemma first_best_run_queries:
  "first_best (encountered search an al du tc (calls st)) st \<Longrightarrow>
     first_best (encountered search an al du tc (calls (run_queries search an al du tc qs st)))
       (run_queries search an al du tc qs st)"
proof (induction qs arbitrary: st)
  case Nil
  then show ?case by simp
next
  case (Cons q qs)
  let ?st2 = "answer search an al du tc q (st\<lparr>calls := calls st @ [q]\<rparr>)"
  have "first_best (encountered search an al du tc (calls st)) (st\<lparr>calls := calls st @ [q]\<rparr>)"
    using Cons.prems by simp
  then have fb: "first_best (encountered search an al du tc (calls ?st2)) ?st2"
    using first_best_answer by simp
  from run_queries_cases [of search an al du tc q qs st] show ?case
  proof
    assume "run_queries search an al du tc (q # qs) st = ?st2"
    then show ?thesis using fb by simp
  next
    assume "run_queries search an al du tc (q # qs) st = run_queries search an al du tc qs ?st2"
    then show ?thesis using Cons.IH [OF fb] by simp
  qed
qed

text \<open>
  Claim C9. The running best is replaced only by a strictly greater score: the returned
  candidate is the first one, in the order of the queries and of each answer, among the
  candidates met that attain the greatest score, and the returned query is the one that
  produced it.
\<close>

theorem first_maximal_candidate_returned:
  assumes "search_tidal_track search nm an al du = (Some r, cs)"
  shows "\<exists>i q. i < length (encountered search an al du (normalize_search_text nm) cs)
           \<and> encountered search an al du (normalize_search_text nm) cs ! i = (q, r_track r, r_confidence r)
           \<and> r_query_used r = Some q
           \<and> (\<forall>j < i. snd (snd (encountered search an al du (normalize_search_text nm) cs ! j)) < r_confidence r)
           \<and> (\<forall>j < length (encountered search an al du (normalize_search_text nm) cs).
                 snd (snd (encountered search an al du (normalize_search_text nm) cs ! j)) \<le> r_confidence r)"
proof -
  let ?tc = "normalize_search_text nm"
  let ?qs = "build_queries ?tc (normalize_search_text an) (extract_primary_artist (normalize_search_text an))"
  let ?R = "run_queries search an al du ?tc ?qs initial_state"
  have ne: "?tc \<noteq> []" using assms by (auto simp: search_tidal_track_def)
  have "first_best (encountered search an al du ?tc (calls initial_state)) initial_state"
    by (simp add: first_best_def initial_state_def encountered_def)
  then have fb: "first_best (encountered search an al du ?tc (calls ?R)) ?R"
    by (rule first_best_run_queries)
  from assms ne have cs: "cs = calls ?R"
    by (simp add: search_tidal_track_def Let_def)
  from assms ne obtain t where t: "best_match ?R = Some t" and
    r: "r = \<lparr>r_track = t, r_confidence = best_score ?R, r_query_used = query_used ?R\<rparr>"
    by (auto simp: search_tidal_track_def Let_def split: option.splits if_splits)
  from fb t show ?thesis unfolding cs r by (auto simp: first_best_def)
qed

theorem first_maximal_candidate_returned_witness:
  "search_tidal_track tie_stub ''Hello'' ''Adele'' (Some ''25'') (Some 297000)
     = (Some \<lparr>r_track = hello_track, r_confidence = f1_1, r_query_used = Some hello_query\<rparr>,
        [hello_query]) \<and>
   encountered tie_stub ''Adele'' (Some ''25'') (Some 297000) (normalize_search_text ''Hello'')
       [hello_query]
     = [(hello_query, hello_track, f1_1), (hello_query, hello_track\<lparr>track_id := 8\<rparr>, f1_1)] \<and>
   (\<exists>i q. i < length (encountered tie_stub ''Adele'' (Some ''25'') (Some 297000)
                       (normalize_search_text ''Hello'') [hello_query])
       \<and> encountered tie_stub ''Adele'' (Some ''25'') (Some 297000)
           (normalize_search_text ''Hello'') [hello_query] ! i = (q, hello_track, f1_1)
       \<and> Some hello_query = Some q
       \<and> (\<forall>j < i. snd (snd (encountered tie_stub ''Adele'' (Some ''25'') (Some 297000)
                               (normalize_search_text ''Hello'') [hello_query] ! j)) < f1_1))"
proof -
  have e: "search_tidal_track tie_stub ''Hello'' ''Adele'' (Some ''25'') (Some 297000)
     = (Some \<lparr>r_track = hello_track, r_confidence = f1_1, r_query_used = Some hello_query\<rparr>,
        [hello_query])"
    by code_simp
  have n: "encountered tie_stub ''Adele'' (Some ''25'') (Some 297000)
       (normalize_search_text ''Hello'') [hello_query]
     = [(hello_query, hello_track, f1_1), (hello_query, hello_track\<lparr>track_id := 8\<rparr>, f1_1)]"
    by code_simp
  from first_maximal_candidate_returned [OF e] obtain i q where
    "i < length (encountered tie_stub ''Adele'' (Some ''25'') (Some 297000)
                       (normalize_search_text ''Hello'') [hello_query])"
    "encountered tie_stub ''Adele'' (Some ''25'') (Some 297000)
           (normalize_search_text ''Hello'') [hello_query] ! i = (q, hello_track, f1_1)"
    "Some hello_query = Some q"
    "\<forall>j < i. snd (snd (encountered tie_stub ''Adele'' (Some ''25'') (Some 297000)
                               (normalize_search_text ''Hello'') [hello_query] ! j)) < f1_1"
    by auto
  then show ?thesis using e n by blast
qed

section \<open>Bounds of the score\<close>

lemma fadd_mono:
  "0 \<le> x \<Longrightarrow> 0 \<le> y \<Longrightarrow> x \<le> a \<Longrightarrow> y \<le> b \<Longrightarrow> fadd x y \<le> fadd a b"
  unfolding fadd_def by (rule fl_mono) simp_all

lemma fadd_nonneg: "0 \<le> x \<Longrightarrow> 0 \<le> y \<Longrightarrow> 0 \<le> fadd x y"
  unfolding fadd_def by (rule fl_nonneg) simp

lemma fmul_mono:
  "0 \<le> x \<Longrightarrow> 0 \<le> y \<Longrightarrow> x \<le> a \<Longrightarrow> y \<le> b \<Longrightarrow> fmul x y \<le> fmul a b"
  unfolding fmul_def by (rule fl_mono) (simp_all add: mult_mono)

lemma fmul_nonneg: "0 \<le> x \<Longrightarrow> 0 \<le> y \<Longrightarrow> 0 \<le> fmul x y"
  unfolding fmul_def by (rule fl_nonneg) simp

lemma fdiv_len_bounds:
  assumes "a \<le> b"
  shows "0 \<le> fdiv_len a b \<and> fdiv_len a b \<le> 1"
proof -
  have q: "(0::rat) \<le> of_nat a / of_nat b" by simp
  have "(of_nat a :: rat) / of_nat b \<le> 1"
    using assms by (cases "b = 0") (simp_all add: divide_le_eq_1)
  then have "fl (of_nat a / of_nat b) \<le> fl 1" using q by (intro fl_mono)
  moreover have "fl 1 = 1" by code_simp
  ultimately show ?thesis using fl_nonneg [OF q] by (simp add: fdiv_len_def)
qed

lemma float_constants:
  "0 \<le> f0_1" "0 \<le> f0_2" "0 \<le> f0_6" "0 \<le> f0_7" "f0_1 \<le> f0_2"
  "f0_9 \<le> 1" "0 \<le> f0_9" "f0_85 \<le> 1" "0 \<le> f0_85"
  "fmul 1 f0_7 \<le> 1" "fmul 1 f0_6 = f0_6" "fmul 1 f0_2 = f0_2"
  "fadd 0 f0_6 = f0_6" "fadd f0_6 f0_2 = f0_8" "f0_6 \<le> f0_8"
  "fadd f0_8 f0_2 = 1" "f0_8 \<le> 1" "fadd 1 f0_1 = f1_1" "1 < f1_1"
  by code_simp+

lemma similarity_bounds:
  "0 \<le> calculate_artist_similarity a b \<and> calculate_artist_similarity a b \<le> 1"
proof -
  let ?w1 = "set (py_split (py_strip (py_lower a)))"
  let ?w2 = "set (py_split (py_strip (py_lower b)))"
  have "card (?w1 \<inter> ?w2) \<le> card ?w1"
    by (rule card_mono) simp_all
  then have "card (?w1 \<inter> ?w2) \<le> max (card ?w1) (card ?w2)" by simp
  then have d: "0 \<le> fdiv_len (card (?w1 \<inter> ?w2)) (max (card ?w1) (card ?w2))"
      "fdiv_len (card (?w1 \<inter> ?w2)) (max (card ?w1) (card ?w2)) \<le> 1"
    using fdiv_len_bounds by blast+
  have "fmul (fdiv_len (card (?w1 \<inter> ?w2)) (max (card ?w1) (card ?w2))) f0_7 \<le> fmul 1 f0_7"
    using d float_constants(4) by (intro fmul_mono) simp_all
  then have u: "fmul (fdiv_len (card (?w1 \<inter> ?w2)) (max (card ?w1) (card ?w2))) f0_7 \<le> 1"
    using float_constants(10) by simp
  have l: "0 \<le> fmul (fdiv_len (card (?w1 \<inter> ?w2)) (max (card ?w1) (card ?w2))) f0_7"
    using d float_constants(4) by (intro fmul_nonneg)
  show ?thesis
    unfolding calculate_artist_similarity_def Let_def
    using u l float_constants(6-9) by simp
qed

lemma weighted_bounds:
  assumes "0 \<le> w" "fmul 1 w = w"
  shows "0 \<le> fmul (calculate_artist_similarity a b) w \<and> fmul (calculate_artist_similarity a b) w \<le> w"
proof -
  have "fmul (calculate_artist_similarity a b) w \<le> fmul 1 w"
    using similarity_bounds [of a b] assms(1) by (intro fmul_mono) simp_all
  then show ?thesis using assms fmul_nonneg [of "calculate_artist_similarity a b" w] similarity_bounds [of a b]
    by simp
qed

lemma track_score_bounds:
  "0 \<le> track_score an al du tc t \<and> track_score an al du tc t \<le> f1_1"
proof -
  define ta where "ta = (case track_artist t of Some a \<Rightarrow> a | None \<Rightarrow> [])"
  define s1 where "s1 = fadd 0 (fmul (calculate_artist_similarity an ta) f0_6)"
  define s2 where "s2 = (case al of
                      None \<Rightarrow> s1
                    | Some an' \<Rightarrow>
                        (case track_album t of
                           None \<Rightarrow> s1
                         | Some ta' \<Rightarrow>
                             if an' = [] then s1
                             else fadd s1 (fmul (calculate_artist_similarity an' ta') f0_2)))"
  define s3 where "s3 = (case du of
                      None \<Rightarrow> fadd s2 f0_1
                    | Some d \<Rightarrow>
                        (case track_duration t of
                           None \<Rightarrow> fadd s2 f0_1
                         | Some td \<Rightarrow>
                             if d = 0 \<or> td = 0 then fadd s2 f0_1
                             else let duration_diff = \<bar>d - td * 1000\<bar>
                                  in if duration_diff < 5000 then fadd s2 f0_2
                                     else if duration_diff < 15000 then fadd s2 f0_1
                                     else s2))"
  have ts: "track_score an al du tc t =
      (if py_in (py_lower tc) (py_lower (normalize_search_text (track_name t)))
            \<or> py_in (py_lower (normalize_search_text (track_name t))) (py_lower tc)
         then fadd s3 f0_1 else s3)"
    unfolding track_score_def Let_def s3_def s2_def s1_def ta_def by (rule refl)
  have w6: "0 \<le> fmul (calculate_artist_similarity an ta) f0_6" "fmul (calculate_artist_similarity an ta) f0_6 \<le> f0_6"
    using weighted_bounds [OF float_constants(3) float_constants(11)] by blast+
  have b1: "0 \<le> s1" "s1 \<le> f0_6"
  proof -
    show "0 \<le> s1" unfolding s1_def using w6 by (intro fadd_nonneg) simp_all
    have "s1 \<le> fadd 0 f0_6" unfolding s1_def using w6 by (intro fadd_mono) simp_all
    then show "s1 \<le> f0_6" using float_constants(13) by simp
  qed
  have step2: "0 \<le> fadd s1 (fmul (calculate_artist_similarity x y) f0_2) \<and>
      fadd s1 (fmul (calculate_artist_similarity x y) f0_2) \<le> f0_8" for x y
  proof -
    have w2: "0 \<le> fmul (calculate_artist_similarity x y) f0_2" "fmul (calculate_artist_similarity x y) f0_2 \<le> f0_2"
      using weighted_bounds [OF float_constants(2) float_constants(12)] by blast+
    have "fadd s1 (fmul (calculate_artist_similarity x y) f0_2) \<le> fadd f0_6 f0_2"
      using b1 w2 by (intro fadd_mono) simp_all
    then show ?thesis using float_constants(14) fadd_nonneg [OF b1(1) w2(1)] by simp
  qed
  have b2: "0 \<le> s2" "s2 \<le> f0_8"
    unfolding s2_def using b1 step2 float_constants(15) by (auto split: option.splits)
  have a1: "0 \<le> fadd s2 f0_1 \<and> fadd s2 f0_1 \<le> 1"
  proof -
    have "fadd s2 f0_1 \<le> fadd f0_8 f0_2"
      using b2 float_constants(1,5) by (intro fadd_mono) simp_all
    then show ?thesis using float_constants(16) fadd_nonneg [OF b2(1) float_constants(1)] by simp
  qed
  have a2: "0 \<le> fadd s2 f0_2 \<and> fadd s2 f0_2 \<le> 1"
  proof -
    have "fadd s2 f0_2 \<le> fadd f0_8 f0_2"
      using b2 float_constants(2) by (intro fadd_mono) simp_all
    then show ?thesis using float_constants(16) fadd_nonneg [OF b2(1) float_constants(2)] by simp
  qed
  have b3: "0 \<le> s3" "s3 \<le> 1"
    unfolding s3_def Let_def using a1 a2 b2 float_constants(17) by (auto split: option.splits)
  have "fadd s3 f0_1 \<le> fadd 1 f0_1"
    using b3 float_constants(1) by (intro fadd_mono) simp_all
  then have a4: "fadd s3 f0_1 \<le> f1_1" using float_constants(18) by simp
  have "0 \<le> fadd s3 f0_1" using b3 float_constants(1) by (intro fadd_nonneg)
  then show ?thesis unfolding ts using a4 b3 float_constants(19) by auto
qed

lemma track_score_exact:
  assumes "calculate_artist_similarity an (case track_artist t of Some a \<Rightarrow> a | None \<Rightarrow> []) = 1"
    and "al = Some a" "a \<noteq> []" "track_album t = Some ta" "calculate_artist_similarity a ta = 1"
    and "du = Some d" "d \<noteq> 0" "track_duration t = Some td" "td \<noteq> 0" "\<bar>d - td * 1000\<bar> < 5000"
    and "py_in (py_lower tc) (py_lower (normalize_search_text (track_name t)))
            \<or> py_in (py_lower (normalize_search_text (track_name t))) (py_lower tc)"
  shows "track_score an al du tc t = f1_1"
  using assms unfolding track_score_def Let_def
  by (simp add: float_constants)

lemma exact_candidate_score:
  "exact_candidate an al du tc t \<Longrightarrow> track_score an al du tc t = f1_1"
  unfolding exact_candidate_def track_score_def Let_def
  by (auto simp: float_constants split: option.splits)

lemma score_tracks_le:
  "best_score st \<le> f1_1 \<Longrightarrow> best_score (score_tracks an al du tc q ts st) \<le> f1_1"
proof (induction ts arbitrary: st)
  case Nil
  then show ?case by simp
next
  case (Cons t ts)
  show ?case
    using Cons.prems track_score_bounds [of an al du tc t]
    by (auto simp: Let_def intro!: Cons.IH)
qed

lemma run_queries_le:
  "best_score st \<le> f1_1 \<Longrightarrow> best_score (run_queries search an al du tc qs st) \<le> f1_1"
proof (induction qs arbitrary: st)
  case Nil
  then show ?case by simp
next
  case (Cons q qs)
  have "best_score (answer search an al du tc q (st\<lparr>calls := calls st @ [q]\<rparr>)) \<le> f1_1"
    using Cons.prems by (auto simp: answer_def score_tracks_le split: sum.splits)
  then show ?case
    using run_queries_cases [of search an al du tc q qs st] Cons.IH by auto
qed

lemma build_queries_nonempty: "tc \<noteq> [] \<Longrightarrow> build_queries tc ac pa \<noteq> []"
  by (simp add: build_queries_def)

lemma more_constants: "f0_8 \<le> f1_1" "f0_5 \<le> f1_1" "0 < f1_1"
  by code_simp+

lemma run_queries_exact:
  assumes "search q = Inr [t]" "track_score an al du tc t = f1_1"
  shows "run_queries search an al du tc (q # qs) initial_state
     = \<lparr>best_match = Some t, best_score = f1_1, query_used = Some q, calls = [q]\<rparr>"
  using assms more_constants by (simp add: initial_state_def Let_def)

text \<open>
  Claim C1, as amended. Every result of \<open>search_tidal_track\<close> has a confidence between
  0.5 and 1.1 (the floats); and when the first query is answered by a single candidate
  with an exact artist match (similarity 1.0), a supplied, non-empty album name with an
  exact album match (similarity 1.0), a source duration and a candidate duration that
  are both present and non-zero and less than 5000 ms apart, and a name-containment
  match, the confidence returned is the unclamped sum 0.6 + 0.2 + 0.2 + 0.1, the float
  1.1. (A duration that is absent or zero is not compared: the code then adds the flat
  0.1, and this case is not part of the statement.) As stated, with the range [0, 1]
  and the value 1.0, the claim fails: see \<open>confidence_above_one\<close> below.
\<close>

theorem confidence_range:
  "(search_tidal_track search nm an al du = (Some r, cs)
      \<longrightarrow> f0_5 \<le> r_confidence r \<and> r_confidence r \<le> f1_1) \<and>
   (normalize_search_text nm \<noteq> [] \<and>
    search (hd (build_queries (normalize_search_text nm) (normalize_search_text an)
                  (extract_primary_artist (normalize_search_text an)))) = Inr [t] \<and>
    exact_candidate an al du (normalize_search_text nm) t
      \<longrightarrow> search_tidal_track search nm an al du
            = (Some \<lparr>r_track = t, r_confidence = f1_1,
                      r_query_used =
                        Some (hd (build_queries (normalize_search_text nm) (normalize_search_text an)
                                    (extract_primary_artist (normalize_search_text an))))\<rparr>,
               [hd (build_queries (normalize_search_text nm) (normalize_search_text an)
                      (extract_primary_artist (normalize_search_text an)))]))"
proof (intro conjI impI)
  let ?tc = "normalize_search_text nm"
  let ?qs = "build_queries ?tc (normalize_search_text an) (extract_primary_artist (normalize_search_text an))"
  let ?R = "run_queries search an al du ?tc ?qs initial_state"
  {
    assume a: "search_tidal_track search nm an al du = (Some r, cs)"
    then have ne: "?tc \<noteq> []" by (auto simp: search_tidal_track_def)
    from a ne have c: "r_confidence r = best_score ?R" "f0_5 \<le> best_score ?R"
      by (auto simp: search_tidal_track_def Let_def split: option.splits if_splits)
    have "best_score ?R \<le> f1_1"
      using more_constants by (intro run_queries_le) (simp add: initial_state_def)
    then show "f0_5 \<le> r_confidence r" "r_confidence r \<le> f1_1" using c by simp_all
  }
  {
    assume a: "?tc \<noteq> [] \<and> search (hd ?qs) = Inr [t] \<and> exact_candidate an al du ?tc t"
    then obtain q rest where qs: "?qs = q # rest"
      using build_queries_nonempty [of ?tc] by (cases ?qs) auto
    have s: "search q = Inr [t]" using a qs by simp
    have sc: "track_score an al du ?tc t = f1_1" using a by (simp add: exact_candidate_score)
    have R: "?R = \<lparr>best_match = Some t, best_score = f1_1, query_used = Some q, calls = [q]\<rparr>"
      unfolding qs using s sc by (rule run_queries_exact)
    have "search_tidal_track search nm an al du
        = (case best_match ?R of
             None \<Rightarrow> None
           | Some t \<Rightarrow>
               if f0_5 \<le> best_score ?R
               then Some \<lparr>r_track = t, r_confidence = best_score ?R, r_query_used = query_used ?R\<rparr>
               else None,
           calls ?R)"
      using a by (simp add: search_tidal_track_def Let_def del: run_queries.simps)
    also have "\<dots> = (Some \<lparr>r_track = t, r_confidence = f1_1, r_query_used = Some q\<rparr>, [q])"
      unfolding R using more_constants by simp
    finally show "search_tidal_track search nm an al du
            = (Some \<lparr>r_track = t, r_confidence = f1_1, r_query_used = Some (hd ?qs)\<rparr>, [hd ?qs])"
      using qs by simp
  }
qed

lemma hello_eval:
  "search_tidal_track hello_stub ''Hello'' ''Adele'' (Some ''25'') (Some 297000)
     = (Some \<lparr>r_track = hello_track, r_confidence = f1_1, r_query_used = Some hello_query\<rparr>,
        [hello_query])"
  by code_simp

theorem confidence_above_one:
  "map_option r_confidence
     (fst (search_tidal_track hello_stub ''Hello'' ''Adele'' (Some ''25'') (Some 297000))) = Some f1_1 \<and>
   1 < f1_1"
  using hello_eval float_constants(19) by simp

lemma hello_exact:
  "normalize_search_text ''Hello'' \<noteq> []"
  "hd (build_queries (normalize_search_text ''Hello'') (normalize_search_text ''Adele'')
                  (extract_primary_artist (normalize_search_text ''Adele''))) = hello_query"
  "exact_candidate ''Adele'' (Some ''25'') (Some 297000) (normalize_search_text ''Hello'') hello_track"
  by code_simp+

theorem confidence_range_witness:
  "search_tidal_track hello_stub ''Hello'' ''Adele'' (Some ''25'') (Some 297000)
     = (Some \<lparr>r_track = hello_track, r_confidence = f1_1, r_query_used = Some hello_query\<rparr>,
        [hello_query]) \<and>
   f0_5 \<le> f1_1 \<and> f1_1 \<le> f1_1 \<and>
   normalize_search_text ''Hello'' \<noteq> [] \<and>
   hello_stub hello_query = Inr [hello_track] \<and>
   exact_candidate ''Adele'' (Some ''25'') (Some 297000) (normalize_search_text ''Hello'') hello_track"
proof -
  have s: "hello_stub hello_query = Inr [hello_track]" by (simp add: hello_stub_def)
  have "f0_5 \<le> r_confidence \<lparr>r_track = hello_track, r_confidence = f1_1, r_query_used = Some hello_query\<rparr>
      \<and> r_confidence \<lparr>r_track = hello_track, r_confidence = f1_1, r_query_used = Some hello_query\<rparr> \<le> f1_1"
    using confidence_range [of hello_stub "''Hello''" "''Adele''" "Some ''25''" "Some 297000"
        "\<lparr>r_track = hello_track, r_confidence = f1_1, r_query_used = Some hello_query\<rparr>" "[hello_query]"]
      hello_eval by blast
  then show ?thesis using hello_eval hello_exact s by simp
qed

section \<open>Playlist transfer: the batches written\<close>

lemma process_item_buffer:
  assumes "\<forall>ids. add ids = None"
    and "\<forall>t. item = Some t \<and> matched_id search item \<noteq> None \<longrightarrow> sp_artists t \<noteq> []"
  shows "(batch_ids (process_item search add pl item st), writes (process_item search add pl item st))
     = buffer_item search item (batch_ids st, writes st)"
proof (cases item)
  case None
  then show ?thesis by (simp add: process_item_def buffer_item_def matched_id_def)
next
  case (Some t)
  show ?thesis
  proof (cases "sp_type t \<noteq> ''track''")
    case True
    then show ?thesis using Some by (simp add: process_item_def buffer_item_def matched_id_def)
  next
    case False
    let ?m = "fst (search_tidal_track search (sp_name t) (py_join '', '' (sp_artists t))
                        (Some (sp_album t)) (Some (sp_duration_ms t)))"
    show ?thesis
    proof (cases ?m)
      case None
      then show ?thesis using Some False
        by (simp add: process_item_def buffer_item_def matched_id_def item_failed_def Let_def
            split: error.splits)
    next
      case (Some m)
      then have "matched_id search item \<noteq> None"
        using \<open>item = Some t\<close> False by (simp add: matched_id_def)
      then have "sp_artists t \<noteq> []" using assms(2) \<open>item = Some t\<close> by blast
      then show ?thesis using Some \<open>item = Some t\<close> False assms(1)
        by (simp add: process_item_def buffer_item_def matched_id_def buffer_id_def Let_def)
    qed
  qed
qed

lemma fold_process_buffer:
  assumes "\<forall>ids. add ids = None"
    and "\<forall>t. Some t \<in> set its \<and> matched_id search (Some t) \<noteq> None \<longrightarrow> sp_artists t \<noteq> []"
  shows "(batch_ids (fold (process_item search add pl) its st),
          writes (fold (process_item search add pl) its st))
     = fold (buffer_item search) its (batch_ids st, writes st)"
  using assms(2)
proof (induction its arbitrary: st)
  case Nil
  then show ?case by simp
next
  case (Cons it its)
  have 1: "\<forall>t. it = Some t \<and> matched_id search it \<noteq> None \<longrightarrow> sp_artists t \<noteq> []"
    using Cons.prems by auto
  have 2: "\<forall>t. Some t \<in> set its \<and> matched_id search (Some t) \<noteq> None \<longrightarrow> sp_artists t \<noteq> []"
    using Cons.prems by auto
  show ?case
    using Cons.IH [OF 2, of "process_item search add pl it st"]
      process_item_buffer [OF assms(1) 1, of pl st]
    by simp
qed

lemma fold_buffer_item:
  "fold (buffer_item search) its bw = fold (buffer_id 50) (List.map_filter (matched_id search) its) bw"
  by (induction its arbitrary: bw) (simp_all add: buffer_item_def List.map_filter_simps split: option.splits)

lemma buffer_id_full:
  "Suc (length b) = n \<Longrightarrow> buffer_id n i (b, w) = ([], w @ [b @ [i]])"
  by (simp add: buffer_id_def)

lemma buffer_id_room:
  "Suc (length b) \<noteq> n \<Longrightarrow> buffer_id n i (b, w) = (b @ [i], w)"
  by (simp add: buffer_id_def)

lemma fold_buffer_id:
  assumes "length b < n" "\<forall>x \<in> set w. length x = n"
  shows "length (fst (fold (buffer_id n) ids (b, w))) < n
     \<and> (\<forall>x \<in> set (snd (fold (buffer_id n) ids (b, w))). length x = n)
     \<and> concat (snd (fold (buffer_id n) ids (b, w))) @ fst (fold (buffer_id n) ids (b, w))
         = concat w @ b @ ids"
  using assms
proof (induction ids arbitrary: b w)
  case Nil
  then show ?case by simp
next
  case (Cons i ids)
  show ?case
  proof (cases "Suc (length b) = n")
    case True
    have 1: "length ([] :: int list) < n" using True by auto
    have 2: "\<forall>x \<in> set (w @ [b @ [i]]). length x = n" using Cons.prems(2) True by simp
    from Cons.IH [OF 1 2] show ?thesis
      by (simp add: buffer_id_full [OF True])
  next
    case False
    have 1: "length (b @ [i]) < n" using Cons.prems(1) False by simp
    from Cons.IH [OF 1 Cons.prems(2)] show ?thesis
      by (simp add: buffer_id_room [OF False])
  qed
qed

lemma transfer_pages_finite:
  assumes "ps \<noteq> []"
    and "\<forall>i < length ps. fetch (off + 100 * i) = Inr (ps ! i) \<and> has_next (ps ! i) = (Suc i < length ps)"
  shows "transfer_pages search add fetch pl off st
     = Some (fold (process_item search add pl) (concat (map items ps)) st, None)"
  using assms
proof (induction ps arbitrary: off st)
  case Nil
  then show ?case by simp
next
  case (Cons p ps)
  have p0: "fetch off = Inr p" "has_next p = (ps \<noteq> [])"
    using Cons.prems(2) [rule_format, of 0] by auto
  show ?case
  proof (cases "ps = []")
    case True
    then show ?thesis using p0 by (subst transfer_pages.simps) (simp add: Let_def)
  next
    case False
    have "\<forall>i < length ps. fetch (off + 100 + 100 * i) = Inr (ps ! i) \<and> has_next (ps ! i) = (Suc i < length ps)"
    proof (intro allI impI)
      fix i assume "i < length ps"
      then show "fetch (off + 100 + 100 * i) = Inr (ps ! i) \<and> has_next (ps ! i) = (Suc i < length ps)"
        using Cons.prems(2) [rule_format, of "Suc i"] by (simp add: algebra_simps)
    qed
    from Cons.IH [OF False this] show ?thesis
      using p0 False by (subst transfer_pages.simps) (simp add: Let_def)
  qed
qed

lemma final_writes:
  assumes "length b < n" "\<forall>x \<in> set w. length x = n"
  shows "(\<forall>k. Suc k < length (w @ (if b \<noteq> [] then [b] else []))
            \<longrightarrow> length ((w @ (if b \<noteq> [] then [b] else [])) ! k) = n)
     \<and> (\<forall>x \<in> set (w @ (if b \<noteq> [] then [b] else [])). 0 < length x \<and> length x \<le> n)
     \<and> concat (w @ (if b \<noteq> [] then [b] else [])) = concat w @ b"
proof -
  have "0 < n" using assms(1) by simp
  then show ?thesis using assms by (auto simp: nth_append)
qed

lemma sizes_125:
  assumes "\<forall>x \<in> set w. length x = 50" "length b < 50" "length (concat w @ b) = 125"
  shows "map length (w @ (if b \<noteq> [] then [b] else [])) = [50, 50, 25]"
proof -
  have m: "map length w = replicate (length w) 50"
    using assms(1) by (induction w) simp_all
  have "length (concat w) = 50 * length w"
    using assms(1) by (induction w) simp_all
  then have e: "50 * length w + length b = 125" using assms(3) by simp
  then have "length w = 2" using assms(2) by presburger
  moreover from this e have "length b = 25" by simp
  ultimately show ?thesis using m by (auto simp: numeral_2_eq_2)
qed

theorem batches_of_fifty:
  assumes "ps \<noteq> []"
    and "\<forall>i < length ps. fetch (100 * i) = Inr (ps ! i) \<and> has_next (ps ! i) = (Suc i < length ps)"
    and "\<forall>ids. add ids = None"
    and "\<forall>t. Some t \<in> set (concat (map items ps)) \<and> matched_id search (Some t) \<noteq> None
          \<longrightarrow> sp_artists t \<noteq> []"
  shows "\<exists>st. direct_transfer_playlist search add fetch pl = Some (st, None)
      \<and> concat (writes st) = List.map_filter (matched_id search) (concat (map items ps))
      \<and> (\<forall>k. Suc k < length (writes st) \<longrightarrow> length (writes st ! k) = 50)
      \<and> (\<forall>w \<in> set (writes st). 0 < length w \<and> length w \<le> 50)
      \<and> (length (List.map_filter (matched_id search) (concat (map items ps))) = 125
           \<longrightarrow> map length (writes st) = [50, 50, 25])"
proof -
  let ?its = "concat (map items ps)"
  let ?ids = "List.map_filter (matched_id search) ?its"
  let ?st = "fold (process_item search add pl) ?its initial_transfer"
  let ?b = "batch_ids ?st" and ?w = "writes ?st"
  let ?fw = "?w @ (if ?b \<noteq> [] then [?b] else [])"
  have tp: "transfer_pages search add fetch pl 0 initial_transfer = Some (?st, None)"
    using assms(1,2) by (intro transfer_pages_finite) simp_all
  have "(?b, ?w) = fold (buffer_item search) ?its (batch_ids initial_transfer, writes initial_transfer)"
    using assms(3,4) by (rule fold_process_buffer)
  then have bw: "(?b, ?w) = fold (buffer_id 50) ?ids ([], [])"
    by (simp only: fold_buffer_item) (simp add: initial_transfer_def)
  have "length ([] :: int list) < 50" "\<forall>x \<in> set ([] :: int list list). length x = 50"
    by simp_all
  from fold_buffer_id [OF this, of ?ids]
  have inv: "length ?b < 50 \<and> (\<forall>x \<in> set ?w. length x = 50) \<and> concat ?w @ ?b = ?ids"
    unfolding bw [symmetric] by simp
  then have i1: "length ?b < 50" and i2: "\<forall>x \<in> set ?w. length x = 50" and i3: "concat ?w @ ?b = ?ids"
    by blast+
  define fin where "fin = (if ?b \<noteq> [] then ?st\<lparr>writes := ?w @ [?b]\<rparr> else ?st)"
  have r: "direct_transfer_playlist search add fetch pl = Some (fin, None)"
    unfolding fin_def using tp assms(3) by (simp add: direct_transfer_playlist_def)
  have w: "writes fin = ?fw"
    unfolding fin_def by simp
  from final_writes [OF i1 i2]
  have c2: "\<forall>k. Suc k < length (writes fin) \<longrightarrow> length (writes fin ! k) = 50"
    and c3: "\<forall>x \<in> set (writes fin). 0 < length x \<and> length x \<le> 50"
    and c1: "concat (writes fin) = concat ?w @ ?b"
    unfolding w by blast+
  have c4: "length ?ids = 125 \<longrightarrow> map length (writes fin) = [50, 50, 25]"
  proof
    assume "length ?ids = 125"
    then have "length (concat ?w @ ?b) = 125" unfolding i3 .
    from sizes_125 [OF i2 i1 this] show "map length (writes fin) = [50, 50, 25]"
      unfolding w .
  qed
  have c1': "concat (writes fin) = ?ids" using c1 i3 by (rule trans)
  show ?thesis
    by (rule exI [of _ fin]) (intro conjI r c1' c2 c3 c4)
qed

lemma adele_match:
  "fst (search_tidal_track always_hello (sp_name adele_item) (py_join '', '' (sp_artists adele_item))
          (Some (sp_album adele_item)) (Some (sp_duration_ms adele_item)))
     = Some \<lparr>r_track = hello_track, r_confidence = f1_1, r_query_used = Some hello_query\<rparr>"
  by code_simp

lemma orphan_match:
  "fst (search_tidal_track always_hello (sp_name orphan_item) (py_join '', '' (sp_artists orphan_item))
          (Some (sp_album orphan_item)) (Some (sp_duration_ms orphan_item)))
     = Some \<lparr>r_track = hello_track, r_confidence = f0_5, r_query_used = Some ''Hello''\<rparr>"
  by code_simp

lemma orphan_match_plain:
  "fst (search_tidal_track always_hello (sp_name orphan_item) []
          (Some (sp_album orphan_item)) (Some (sp_duration_ms orphan_item)))
     = Some \<lparr>r_track = hello_track, r_confidence = f0_5, r_query_used = Some ''Hello''\<rparr>"
  using orphan_match by (simp add: orphan_item_def)

lemma item_facts:
  "sp_type adele_item = ''track''" "sp_artists adele_item \<noteq> []"
  "sp_type orphan_item = ''track''" "sp_artists orphan_item = []"
  "track_id hello_track = 7"
  by (simp_all add: adele_item_def orphan_item_def hello_track_def)

lemma matched_id_examples:
  "matched_id always_hello (Some adele_item) = Some 7"
  "matched_id always_hello (Some orphan_item) = Some 7"
  by (simp_all add: matched_id_def adele_match orphan_match_plain item_facts)

lemma adele_appended:
  assumes "Suc (length (batch_ids st)) \<noteq> 50"
  shows "batch_ids (process_item always_hello add_ok pl (Some adele_item) st) = batch_ids st @ [7]
     \<and> writes (process_item always_hello add_ok pl (Some adele_item) st) = writes st"
  using assms by (simp add: process_item_def adele_match item_facts Let_def)

lemma orphan_appended:
  "batch_ids (process_item always_hello add_ok pl (Some orphan_item) st) = batch_ids st @ [7]
     \<and> writes (process_item always_hello add_ok pl (Some orphan_item) st) = writes st"
  by (simp add: process_item_def orphan_match_plain item_facts Let_def item_failed_def)

lemma adele_run_appended:
  assumes "length (batch_ids st) + k < n \<or> n \<le> length (batch_ids st)" "n = 50"
  shows "batch_ids (fold (process_item always_hello add_ok pl) (replicate k (Some adele_item)) st)
           = batch_ids st @ replicate k 7
     \<and> writes (fold (process_item always_hello add_ok pl) (replicate k (Some adele_item)) st) = writes st"
  using assms(1)
proof (induction k arbitrary: st)
  case 0
  then show ?case by simp
next
  case (Suc k)
  let ?st1 = "process_item always_hello add_ok pl (Some adele_item) st"
  have "Suc (length (batch_ids st)) \<noteq> n" using Suc.prems by auto
  then have "Suc (length (batch_ids st)) \<noteq> 50" unfolding assms(2) .
  then have 1: "batch_ids ?st1 = batch_ids st @ [7]" "writes ?st1 = writes st"
    using adele_appended by blast+
  have "length (batch_ids ?st1) + k < n \<or> n \<le> length (batch_ids ?st1)"
    using Suc.prems unfolding 1 by auto
  from Suc.IH [OF this] show ?case
    unfolding 1 by (simp add: replicate_app_Cons_same)
qed

lemma map_filter_replicate:
  "f x = Some y \<Longrightarrow> List.map_filter f (replicate k x) = replicate k y"
  by (induction k) (simp_all add: List.map_filter_simps)

lemma map_filter_append: "List.map_filter f (xs @ ys) = List.map_filter f xs @ List.map_filter f ys"
  by (simp add: List.map_filter_def)

lemma gap_pages:
  "transfer_pages always_hello add_ok playlist_125_gap pl 0 st
     = Some (fold (process_item always_hello add_ok pl)
               (replicate 25 (Some adele_item))
               (fold (process_item always_hello add_ok pl)
                  (replicate 49 (Some adele_item) @ [Some orphan_item] @ replicate 50 (Some adele_item))
                  st), None)"
  apply (subst transfer_pages.simps)
  apply (subst transfer_pages.simps)
  apply (simp add: playlist_125_gap_def Let_def)
  done

lemma gap_state:
  assumes "batch_ids st = []" "writes st = []"
  shows "batch_ids (fold (process_item always_hello add_ok pl)
               (replicate 25 (Some adele_item))
               (fold (process_item always_hello add_ok pl)
                  (replicate 49 (Some adele_item) @ [Some orphan_item] @ replicate 50 (Some adele_item))
                  st)) = replicate 125 7
     \<and> writes (fold (process_item always_hello add_ok pl)
               (replicate 25 (Some adele_item))
               (fold (process_item always_hello add_ok pl)
                  (replicate 49 (Some adele_item) @ [Some orphan_item] @ replicate 50 (Some adele_item))
                  st)) = []"
proof -
  let ?P = "process_item always_hello add_ok pl"
  let ?s1 = "fold ?P (replicate 49 (Some adele_item)) st"
  let ?s2 = "?P (Some orphan_item) ?s1"
  let ?s3 = "fold ?P (replicate 50 (Some adele_item)) ?s2"
  let ?s4 = "fold ?P (replicate 25 (Some adele_item)) ?s3"
  have "length (batch_ids st) + 49 < 50 \<or> 50 \<le> length (batch_ids st)"
    unfolding assms by simp
  from adele_run_appended [OF this refl, of pl]
  have 1: "batch_ids ?s1 = replicate 49 7" "writes ?s1 = []"
    unfolding assms by simp_all
  from orphan_appended [of pl ?s1]
  have 2: "batch_ids ?s2 = replicate 49 7 @ [7]" "writes ?s2 = []"
    unfolding 1 by simp_all
  have "length (batch_ids ?s2) + 50 < 50 \<or> 50 \<le> length (batch_ids ?s2)"
    unfolding 2 by simp
  from adele_run_appended [OF this refl, of pl]
  have 3: "batch_ids ?s3 = replicate 49 7 @ [7] @ replicate 50 7" "writes ?s3 = []"
    unfolding 2 by simp_all
  have "length (batch_ids ?s3) + 25 < 50 \<or> 50 \<le> length (batch_ids ?s3)"
    unfolding 3 by simp
  from adele_run_appended [OF this refl, of pl]
  have 4: "batch_ids ?s4 = replicate 49 7 @ [7] @ replicate 50 7 @ replicate 25 7" "writes ?s4 = []"
    unfolding 3 by simp_all
  have r: "replicate 49 7 @ [7] @ replicate 50 7 @ replicate 25 (7::int) = replicate 125 7"
    using replicate_length_same [of "replicate 49 7 @ [7] @ replicate 50 7 @ replicate 25 (7::int)" 7]
    by simp
  have f: "fold ?P (replicate 49 (Some adele_item) @ [Some orphan_item] @ replicate 50 (Some adele_item)) st = ?s3"
    by simp
  show ?thesis unfolding f using 4 r by simp
qed

text \<open>
  Claim C5. Matched track identifiers are written to the destination playlist in calls
  of exactly 50, with one last call for the rest: for 125 matched tracks there are
  three calls, of 50, 50 and 25 identifiers. The code does so on every run in which
  nothing raises inside the loop body (\<open>batches_of_fifty\<close> above), but not on all
  runs: on the playlist below, whose 125 tracks are all matched and whose 50th track
  lists no artist, the progress line of that track raises \<open>IndexError\<close> between the
  append and the length check, the buffer passes 50 without being written, and the
  only write call is the last one, with all 125 identifiers.
\<close>

theorem flush_skipped_after_exception:
  "map_option (\<lambda>r. (map length (writes (fst r)), snd r))
     (direct_transfer_playlist always_hello add_ok playlist_125_gap ''Mix'') = Some ([125], None) \<and>
   List.map_filter (matched_id always_hello)
     (replicate 49 (Some adele_item) @ [Some orphan_item] @ replicate 50 (Some adele_item)
        @ replicate 25 (Some adele_item)) = replicate 125 7"
proof -
  let ?st = "fold (process_item always_hello add_ok ''Mix'')
               (replicate 25 (Some adele_item))
               (fold (process_item always_hello add_ok ''Mix'')
                  (replicate 49 (Some adele_item) @ [Some orphan_item] @ replicate 50 (Some adele_item))
                  initial_transfer)"
  have "batch_ids initial_transfer = []" "writes initial_transfer = []"
    by (simp_all add: initial_transfer_def)
  from gap_state [OF this, of "''Mix''"]
  have b: "batch_ids ?st = replicate 125 7" and w: "writes ?st = []" by blast+
  have ne: "batch_ids ?st \<noteq> []" unfolding b by simp
  have "direct_transfer_playlist always_hello add_ok playlist_125_gap ''Mix''
      = Some (?st\<lparr>writes := writes ?st @ [batch_ids ?st]\<rparr>, add_ok (batch_ids ?st))"
    unfolding direct_transfer_playlist_def gap_pages using ne by simp
  then have 1: "map_option (\<lambda>r. (map length (writes (fst r)), snd r))
     (direct_transfer_playlist always_hello add_ok playlist_125_gap ''Mix'') = Some ([125], None)"
    unfolding b w by (simp add: add_ok_def)
  have 2: "List.map_filter (matched_id always_hello)
     (replicate 49 (Some adele_item) @ [Some orphan_item] @ replicate 50 (Some adele_item)
        @ replicate 25 (Some adele_item)) = replicate 125 7"
    using replicate_length_same [of "replicate 49 7 @ [7] @ replicate 50 7 @ replicate 25 (7::int)" 7]
    by (simp add: map_filter_append
        map_filter_replicate [where f = "matched_id always_hello", OF matched_id_examples(1)]
        List.map_filter_simps matched_id_examples(2))
  show ?thesis using 1 2 by (rule conjI)
qed

theorem batches_of_fifty_witness:
  "playlist_125 0 = Inr \<lparr>items = replicate 100 (Some adele_item), has_next = True\<rparr> \<and>
   playlist_125 100 = Inr \<lparr>items = replicate 25 (Some adele_item), has_next = False\<rparr> \<and>
   add_ok [7] = None \<and>
   matched_id always_hello (Some adele_item) = Some 7 \<and> sp_artists adele_item \<noteq> [] \<and>
   (\<exists>st. direct_transfer_playlist always_hello add_ok playlist_125 ''Mix'' = Some (st, None)
      \<and> map length (writes st) = [50, 50, 25])"
proof -
  let ?p0 = "\<lparr>items = replicate 100 (Some adele_item), has_next = True\<rparr>"
  let ?p1 = "\<lparr>items = replicate 25 (Some adele_item), has_next = False\<rparr>"
  let ?ps = "[?p0, ?p1]"
  have f0: "playlist_125 0 = Inr ?p0" and f1: "playlist_125 100 = Inr ?p1"
    by (simp_all add: playlist_125_def)
  have h1: "?ps \<noteq> []" by simp
  have h2: "\<forall>i < length ?ps. playlist_125 (100 * i) = Inr (?ps ! i)
      \<and> has_next (?ps ! i) = (Suc i < length ?ps)"
  proof (intro allI impI)
    fix i assume "i < length ?ps"
    then consider "i = 0" | "i = 1" by fastforce
    then show "playlist_125 (100 * i) = Inr (?ps ! i) \<and> has_next (?ps ! i) = (Suc i < length ?ps)"
      using f0 f1 by cases simp_all
  qed
  have h3: "\<forall>ids. add_ok ids = None" by (simp add: add_ok_def)
  have h4: "\<forall>t. Some t \<in> set (concat (map items ?ps)) \<and> matched_id always_hello (Some t) \<noteq> None
          \<longrightarrow> sp_artists t \<noteq> []"
    using item_facts(2) by auto
  have n: "length (List.map_filter (matched_id always_hello) (concat (map items ?ps))) = 125"
    by (simp add: map_filter_append
        map_filter_replicate [where f = "matched_id always_hello", OF matched_id_examples(1)])
  from batches_of_fifty [OF h1 h2 h3 h4, of "''Mix''"] obtain st where
    st: "direct_transfer_playlist always_hello add_ok playlist_125 ''Mix'' = Some (st, None)"
    and "length (List.map_filter (matched_id always_hello) (concat (map items ?ps))) = 125
           \<longrightarrow> map length (writes st) = [50, 50, 25]"
    by (elim exE conjE) (rule that, assumption+)
  then have "map length (writes st) = [50, 50, 25]" using n by (rule_tac mp)
  with st have e: "\<exists>st. direct_transfer_playlist always_hello add_ok playlist_125 ''Mix'' = Some (st, None)
      \<and> map length (writes st) = [50, 50, 25]"
    by (intro exI conjI)
  have a: "add_ok [7] = None" by (simp add: add_ok_def)
  show ?thesis
    by (intro conjI f0 f1 a matched_id_examples(1) item_facts(2) e)
qed

end
